theory Spec2Isabelle
  imports Main "HOL-Library.Signed_Division"
begin

section \<open>The random stable-marriage solver: shallow embedding\<close>

text \<open>
  The program \<^verbatim>\<open>random-stable-marriage-solver.c\<close> is one \<^verbatim>\<open>main\<close> with a helper
  \<^verbatim>\<open>shuffle_array\<close>. C \<^verbatim>\<open>int\<close> values are modelled as \<open>int\<close>: every value the
  program computes on an input \<open>0 \<le> n\<close> stays between \<open>-1\<close> and \<open>max n RAND_MAX\<close>
  (cursors and ranks are at most \<open>n\<close>, the divisor \<open>RAND_MAX / (n - i) + 1\<close> has
  \<open>2 \<le> n - i\<close>), so no wrap-around is reachable. Arrays are lists; an access outside
  the declared bounds, which is undefined behaviour in C, is the error value
  \<open>UndefinedBehaviour\<close>, and so is the declaration of an array of negative size.
\<close>

subsection \<open>Errors and array accesses\<close>

datatype error = UsageError | UndefinedBehaviour

definition rd :: "'a list \<Rightarrow> int \<Rightarrow> error + 'a" where
  "rd xs i = (if 0 \<le> i \<and> i < int (length xs) then Inr (xs ! nat i) else Inl UndefinedBehaviour)"

definition wr :: "'a list \<Rightarrow> int \<Rightarrow> 'a \<Rightarrow> error + 'a list" where
  "wr xs i v = (if 0 \<le> i \<and> i < int (length xs) then Inr (xs[nat i := v]) else Inl UndefinedBehaviour)"

text \<open>Sequencing: the first error ends the run.\<close>

definition bnd :: "error + 'a \<Rightarrow> ('a \<Rightarrow> error + 'b) \<Rightarrow> error + 'b" where
  "bnd m f = (case m of Inl e \<Rightarrow> Inl e | Inr x \<Rightarrow> f x)"

text \<open>
  \<^verbatim>\<open>for (int i = lo; i <= hi; i++) body\<close> over a counter that the body does not
  change is \<open>for_each body [lo..hi]\<close>.
\<close>

fun for_each :: "(int \<Rightarrow> 's \<Rightarrow> error + 's) \<Rightarrow> int list \<Rightarrow> 's \<Rightarrow> error + 's" where
  "for_each body [] st = Inr st"
| "for_each body (i # is) st = bnd (body i st) (for_each body is)"

subsection \<open>The preference generator\<close>

text \<open>
  \<^verbatim>\<open>rand()\<close> and \<^verbatim>\<open>RAND_MAX\<close> belong to the C library. The randomness source is
  a sequence \<open>rnd\<close> of the values that successive calls return, with the number of calls
  made so far as state; \<open>rand_max\<close> is a parameter. The library's contract is
  \<open>0 \<le> rnd k \<le> rand_max\<close>. C's \<^verbatim>\<open>/\<close> truncates, which is \<open>sdiv\<close>.
\<close>

definition rand_contract :: "int \<Rightarrow> (nat \<Rightarrow> int) \<Rightarrow> bool" where
  "rand_contract rand_max rnd = (\<forall>k. 0 \<le> rnd k \<and> rnd k \<le> rand_max)"

definition shuffle_body :: "int \<Rightarrow> (nat \<Rightarrow> int) \<Rightarrow> int \<Rightarrow> int \<Rightarrow> int list \<times> nat \<Rightarrow> error + int list \<times> nat" where
  "shuffle_body rand_max rnd n i = (\<lambda>(array, calls).
     let j = i + rnd calls sdiv (rand_max sdiv (n - i) + 1) in
     bnd (rd array j) (\<lambda>t.
     bnd (rd array i) (\<lambda>ai.
     bnd (wr array j ai) (\<lambda>array.
     bnd (wr array i t) (\<lambda>array.
     Inr (array, Suc calls))))))"

definition shuffle_array :: "int \<Rightarrow> (nat \<Rightarrow> int) \<Rightarrow> int \<Rightarrow> int list \<times> nat \<Rightarrow> error + int list \<times> nat" where
  "shuffle_array rand_max rnd n = for_each (shuffle_body rand_max rnd n) [0..n - 2]"

text \<open>\<^verbatim>\<open>for (j = 0; j < n; j++) prefs[i][j] = randlist[j];\<close>\<close>

definition copy_row :: "int \<Rightarrow> int \<Rightarrow> int list \<Rightarrow> int list list \<Rightarrow> error + int list list" where
  "copy_row n i randlist = for_each (\<lambda>j prefs.
     bnd (rd randlist j) (\<lambda>v.
     bnd (rd prefs i) (\<lambda>row.
     bnd (wr row j v) (\<lambda>row.
     wr prefs i row)))) [0..n - 1]"

record gen_state =
  randlist :: "int list"
  calls :: nat
  seller_prefs :: "int list list"
  buyer_prefs :: "int list list"

definition gen_body :: "int \<Rightarrow> (nat \<Rightarrow> int) \<Rightarrow> int \<Rightarrow> int \<Rightarrow> gen_state \<Rightarrow> error + gen_state" where
  "gen_body rand_max rnd n i g =
     bnd (shuffle_array rand_max rnd n (randlist g, calls g)) (\<lambda>(rl, c).
     bnd (copy_row n i rl (seller_prefs g)) (\<lambda>sp.
     bnd (shuffle_array rand_max rnd n (rl, c)) (\<lambda>(rl, c).
     bnd (copy_row n i rl (buyer_prefs g)) (\<lambda>bp.
     Inr \<lparr>randlist = rl, calls = c, seller_prefs = sp, buyer_prefs = bp\<rparr>))))"

text \<open>
  The declared arrays hold indeterminate values until they are written; the model
  starts them at 0. \<open>randlist\<close> is filled with \<open>0, \<dots>, n - 1\<close> once, before the row loop.
\<close>

definition init_randlist :: "int \<Rightarrow> error + int list" where
  "init_randlist n = for_each (\<lambda>i rl. wr rl i i) [0..n - 1] (replicate (nat n) 0)"

definition generate :: "int \<Rightarrow> (nat \<Rightarrow> int) \<Rightarrow> int \<Rightarrow> error + gen_state" where
  "generate rand_max rnd n =
     bnd (init_randlist n) (\<lambda>rl.
     for_each (gen_body rand_max rnd n) [0..n - 1]
       \<lparr>randlist = rl, calls = 0,
        seller_prefs = replicate (nat n) (replicate (nat n) 0),
        buyer_prefs = replicate (nat n) (replicate (nat n) 0)\<rparr>)"

subsection \<open>The matching engine\<close>

text \<open>
  The arrays and the variables that live across iterations of the proposal loop.
  \<^verbatim>\<open>curr_buyer\<close>, \<^verbatim>\<open>other_seller\<close> and \<^verbatim>\<open>other_seller_rank\<close> are assigned before each
  use and are local to one proposal; \<^verbatim>\<open>curr_seller_rank\<close> keeps its value when the
  rank scan finds no entry, so it is part of the state.
\<close>

record engine_state =
  seller_next_choices :: "int list"
  buyer_final_prefs :: "int list"
  seller_matches :: "int list"
  buyer_matches :: "int list"
  bachelor_count :: int
  curr_seller_rank :: int

definition init_body :: "int \<Rightarrow> engine_state \<Rightarrow> error + engine_state" where
  "init_body i st =
     bnd (wr (seller_next_choices st) i 0) (\<lambda>snc.
     bnd (wr (buyer_final_prefs st) i (- 1)) (\<lambda>bfp.
     bnd (wr (seller_matches st) i (- 1)) (\<lambda>sm.
     bnd (wr (buyer_matches st) i (- 1)) (\<lambda>bm.
     Inr (st\<lparr>seller_next_choices := snc, buyer_final_prefs := bfp,
              seller_matches := sm, buyer_matches := bm\<rparr>)))))"

definition init_state :: "int \<Rightarrow> error + engine_state" where
  "init_state n =
     for_each init_body [0..n - 1]
       \<lparr>seller_next_choices = replicate (nat n) 0, buyer_final_prefs = replicate (nat n) 0,
        seller_matches = replicate (nat n) 0, buyer_matches = replicate (nat n) 0,
        bachelor_count = n, curr_seller_rank = - 1\<rparr>"

text \<open>The scan for the current seller's rank on the buyer's list (lines 81 to 85).\<close>

definition rank_scan :: "int \<Rightarrow> int list \<Rightarrow> int \<Rightarrow> int \<Rightarrow> error + int" where
  "rank_scan n row curr_seller = for_each (\<lambda>j rank.
     bnd (rd row j) (\<lambda>v. Inr (if v = curr_seller then j else rank))) [0..n - 1]"

text \<open>One proposal: the body of \<^verbatim>\<open>if (seller_matches[curr_seller] == -1)\<close>.\<close>

definition propose :: "int \<Rightarrow> int list list \<Rightarrow> int list list \<Rightarrow> int \<Rightarrow> engine_state \<Rightarrow> error + engine_state" where
  "propose n sp bp curr_seller st =
     bnd (rd (seller_next_choices st) curr_seller) (\<lambda>next_choice.
     bnd (rd sp curr_seller) (\<lambda>srow.
     bnd (rd srow next_choice) (\<lambda>curr_buyer.
     bnd (wr (seller_next_choices st) curr_seller (next_choice + 1)) (\<lambda>snc.
     bnd (rd (buyer_matches st) curr_buyer) (\<lambda>other_seller.
     bnd (rd bp curr_buyer) (\<lambda>brow.
     bnd (rank_scan n brow curr_seller (curr_seller_rank st)) (\<lambda>rank.
     if other_seller = - 1 then
       bnd (wr (buyer_final_prefs st) curr_buyer rank) (\<lambda>bfp.
       bnd (wr (buyer_matches st) curr_buyer curr_seller) (\<lambda>bm.
       bnd (wr (seller_matches st) curr_seller curr_buyer) (\<lambda>sm.
       Inr (st\<lparr>seller_next_choices := snc, buyer_final_prefs := bfp,
                seller_matches := sm, buyer_matches := bm,
                bachelor_count := bachelor_count st - 1, curr_seller_rank := rank\<rparr>))))
     else
       bnd (rd (buyer_final_prefs st) curr_buyer) (\<lambda>other_seller_rank.
       if rank < other_seller_rank then
         bnd (wr (buyer_final_prefs st) curr_buyer rank) (\<lambda>bfp.
         bnd (wr (buyer_matches st) curr_buyer curr_seller) (\<lambda>bm.
         bnd (wr (seller_matches st) curr_seller curr_buyer) (\<lambda>sm.
         bnd (wr sm other_seller (- 1)) (\<lambda>sm.
         Inr (st\<lparr>seller_next_choices := snc, buyer_final_prefs := bfp,
                  seller_matches := sm, buyer_matches := bm, curr_seller_rank := rank\<rparr>)))))
       else Inr (st\<lparr>seller_next_choices := snc, curr_seller_rank := rank\<rparr>)))))))))"

definition seller_turn :: "int \<Rightarrow> int list list \<Rightarrow> int list list \<Rightarrow> int \<Rightarrow> engine_state \<Rightarrow> error + engine_state" where
  "seller_turn n sp bp curr_seller st =
     bnd (rd (seller_matches st) curr_seller) (\<lambda>m.
     if m = - 1 then propose n sp bp curr_seller st else Inr st)"

definition sellers_pass :: "int \<Rightarrow> int list list \<Rightarrow> int list list \<Rightarrow> engine_state \<Rightarrow> error + engine_state" where
  "sellers_pass n sp bp = for_each (seller_turn n sp bp) [0..n - 1]"

text \<open>
  \<^verbatim>\<open>while (bachelor_count > 0)\<close>. The loop has no bound of its own, so it is a partial
  function: \<open>None\<close> is a run that does not end.
\<close>

partial_function (option) proposal_loop :: "int \<Rightarrow> int list list \<Rightarrow> int list list \<Rightarrow> engine_state \<Rightarrow> (error + engine_state) option" where
  "proposal_loop n sp bp st =
     (if 0 < bachelor_count st then
        (case sellers_pass n sp bp st of
           Inl e \<Rightarrow> Some (Inl e)
         | Inr st' \<Rightarrow> proposal_loop n sp bp st')
      else Some (Inr st))"

declare proposal_loop.simps [code]

definition engine :: "int \<Rightarrow> int list list \<Rightarrow> int list list \<Rightarrow> (error + engine_state) option" where
  "engine n sp bp =
     (case init_state n of Inl e \<Rightarrow> Some (Inl e) | Inr st \<Rightarrow> proposal_loop n sp bp st)"


subsection \<open>The program\<close>

text \<open>
  \<^verbatim>\<open>atoi\<close> belongs to the C library. It is modelled after ISO C: white space is
  skipped, an optional sign is read, then the longest run of decimal digits; with no
  digit the value is 0. A value outside the range of \<^verbatim>\<open>int\<close>, for which C leaves the
  behaviour undefined, is returned as it is.
\<close>

definition isspace :: "char \<Rightarrow> bool" where
  "isspace c \<longleftrightarrow> c \<in> set [CHR '' '', CHR 0x09, CHR 0x0A, CHR 0x0B, CHR 0x0C, CHR 0x0D]"

definition isdigit :: "char \<Rightarrow> bool" where
  "isdigit c \<longleftrightarrow> (48::nat) \<le> of_char c \<and> of_char c \<le> (57::nat)"

fun digits_value :: "int \<Rightarrow> string \<Rightarrow> int" where
  "digits_value acc [] = acc"
| "digits_value acc (c # cs) =
     (if isdigit c then digits_value (10 * acc + (int (of_char c) - 48)) cs else acc)"

definition atoi :: "string \<Rightarrow> int" where
  "atoi s = (case dropWhile isspace s of
       [] \<Rightarrow> 0
     | c # cs \<Rightarrow>
         if c = CHR ''-'' then - digits_value 0 cs
         else if c = CHR ''+'' then digits_value 0 cs
         else digits_value 0 (c # cs))"

text \<open>
  What the program prints: the two preference tables and the buyer of every seller.
  The line with the elapsed time is left out.
\<close>

record printout =
  printed_seller_prefs :: "int list list"
  printed_buyer_prefs :: "int list list"
  printed_matches :: "int list"

text \<open>
  \<^verbatim>\<open>main\<close>, on the argument vector (the program name first), the library's
  \<open>rand_max\<close> and the values \<open>rnd\<close> that \<^verbatim>\<open>rand()\<close> returns after the seeding.
  With \<^verbatim>\<open>argc == 1\<close> the usage line is printed and the program exits with status 1,
  which is \<open>UsageError\<close>. The arrays are declared with size \<open>n\<close>: a negative size is
  undefined behaviour, size 0 is accepted as GNU C does.
\<close>

definition main :: "int \<Rightarrow> (nat \<Rightarrow> int) \<Rightarrow> string list \<Rightarrow> (error + printout) option" where
  "main rand_max rnd argv =
     (let argc = int (length argv) in
      if argc = 1 then Some (Inl UsageError)
      else
        let n = (if argc = 2 then atoi (argv ! 1) else 0) in
        if n < 0 then Some (Inl UndefinedBehaviour)
        else
          (case generate rand_max rnd n of
             Inl e \<Rightarrow> Some (Inl e)
           | Inr g \<Rightarrow>
               (case engine n (seller_prefs g) (buyer_prefs g) of
                  None \<Rightarrow> None
                | Some (Inl e) \<Rightarrow> Some (Inl e)
                | Some (Inr fin) \<Rightarrow>
                    Some (Inr \<lparr>printed_seller_prefs = seller_prefs g,
                               printed_buyer_prefs = buyer_prefs g,
                               printed_matches = seller_matches fin\<rparr>))))"

text \<open>A randomness source for examples: the first call returns 1, every later call 0.\<close>

definition one_then_zero :: "nat \<Rightarrow> int" where
  "one_then_zero k = (if k = 0 then 1 else 0)"

subsection \<open>Preference tables, ranks and stability\<close>

text \<open>A row is a permutation of \<open>[0, n)\<close>: no repeats, no omissions.\<close>

definition is_perm :: "int \<Rightarrow> int list \<Rightarrow> bool" where
  "is_perm n row \<longleftrightarrow> distinct row \<and> set row = {0..<n}"

definition valid_prefs :: "int \<Rightarrow> int list list \<Rightarrow> bool" where
  "valid_prefs n prefs \<longleftrightarrow> length prefs = nat n \<and> (\<forall>row \<in> set prefs. is_perm n row)"

text \<open>
  The rank of \<open>x\<close> in a preference list is its position; a lower rank is preferred.
\<close>

fun rank_of :: "int list \<Rightarrow> int \<Rightarrow> int" where
  "rank_of [] x = 0"
| "rank_of (y # ys) x = (if y = x then 0 else rank_of ys x + 1)"

definition prefers :: "int list \<Rightarrow> int \<Rightarrow> int \<Rightarrow> bool" where
  "prefers row x y \<longleftrightarrow> rank_of row x < rank_of row y"

text \<open>
  A matching is given by its two arrays, seller to buyer and buyer to seller.
  Seller \<open>s\<close> and buyer \<open>b\<close> block it when they are not matched to each other and each
  ranks the other before its partner.
\<close>

definition matching :: "int \<Rightarrow> int list \<Rightarrow> int list \<Rightarrow> bool" where
  "matching n sm bm \<longleftrightarrow>
     is_perm n sm \<and> is_perm n bm \<and> (\<forall>s \<in> {0..<n}. bm ! nat (sm ! nat s) = s)"

definition blocking :: "int list list \<Rightarrow> int list list \<Rightarrow> int list \<Rightarrow> int list \<Rightarrow> int \<Rightarrow> int \<Rightarrow> bool" where
  "blocking sp bp sm bm s b \<longleftrightarrow>
     sm ! nat s \<noteq> b \<and> bm ! nat b \<noteq> s \<and>
     prefers (sp ! nat s) b (sm ! nat s) \<and> prefers (bp ! nat b) s (bm ! nat b)"

definition stable :: "int \<Rightarrow> int list list \<Rightarrow> int list list \<Rightarrow> int list \<Rightarrow> int list \<Rightarrow> bool" where
  "stable n sp bp sm bm \<longleftrightarrow> (\<forall>s \<in> {0..<n}. \<forall>b \<in> {0..<n}. \<not> blocking sp bp sm bm s b)"

text \<open>The generator's state between rows: the buffer is a permutation, the tables are \<open>n \<times> n\<close>.\<close>

definition gen_ok :: "int \<Rightarrow> gen_state \<Rightarrow> bool" where
  "gen_ok n g \<longleftrightarrow>
     is_perm n (randlist g) \<and>
     length (seller_prefs g) = nat n \<and> (\<forall>row \<in> set (seller_prefs g). length row = nat n) \<and>
     length (buyer_prefs g) = nat n \<and> (\<forall>row \<in> set (buyer_prefs g). length row = nat n)"

text \<open>
  Two readings of how the rows come about. Every shuffle makes \<open>n - 1\<close> calls of
  \<^verbatim>\<open>rand()\<close>, so the shuffle for the row of seller \<open>i\<close> starts at call
  \<open>2 i (n - 1)\<close> and the one for buyer \<open>i\<close> at call \<open>(2 i + 1) (n - 1)\<close>.
  \<open>rows_fresh\<close> follows the specification: each shuffle starts from the identity
  sequence. \<open>rows_chained\<close>: each shuffle starts from the row before it, the first one
  from the identity sequence.
\<close>

definition rows_fresh :: "int \<Rightarrow> (nat \<Rightarrow> int) \<Rightarrow> int \<Rightarrow> gen_state \<Rightarrow> bool" where
  "rows_fresh rand_max rnd n g \<longleftrightarrow>
     (\<forall>i \<in> {0..<n}.
        shuffle_array rand_max rnd n ([0..n - 1], nat (2 * i * (n - 1))) =
          Inr (seller_prefs g ! nat i, nat ((2 * i + 1) * (n - 1))) \<and>
        shuffle_array rand_max rnd n ([0..n - 1], nat ((2 * i + 1) * (n - 1))) =
          Inr (buyer_prefs g ! nat i, nat ((2 * i + 2) * (n - 1))))"

definition rows_chained :: "int \<Rightarrow> (nat \<Rightarrow> int) \<Rightarrow> int \<Rightarrow> gen_state \<Rightarrow> bool" where
  "rows_chained rand_max rnd n g \<longleftrightarrow>
     (\<forall>i \<in> {0..<n}.
        shuffle_array rand_max rnd n
          (if i = 0 then [0..n - 1] else buyer_prefs g ! nat (i - 1), nat (2 * i * (n - 1))) =
          Inr (seller_prefs g ! nat i, nat ((2 * i + 1) * (n - 1))) \<and>
        shuffle_array rand_max rnd n (seller_prefs g ! nat i, nat ((2 * i + 1) * (n - 1))) =
          Inr (buyer_prefs g ! nat i, nat ((2 * i + 2) * (n - 1))))"

subsection \<open>Runs of the engine as sequences of proposals\<close>

text \<open>
  \<open>proposals n sp bp st log st'\<close>: from \<open>st\<close>, unmatched sellers propose one after the
  other, in any order, and reach \<open>st'\<close>; \<open>log\<close> lists each proposal as the pair of the
  seller and the buyer it proposed to (\<^verbatim>\<open>curr_buyer\<close>), oldest first.
\<close>

definition next_buyer :: "int list list \<Rightarrow> int \<Rightarrow> engine_state \<Rightarrow> int" where
  "next_buyer sp s st = sp ! nat s ! nat (seller_next_choices st ! nat s)"

inductive proposals :: "int \<Rightarrow> int list list \<Rightarrow> int list list \<Rightarrow> engine_state \<Rightarrow> (int \<times> int) list \<Rightarrow> engine_state \<Rightarrow> bool"
  for n sp bp st where
  no_proposal: "proposals n sp bp st [] st"
| one_more: "proposals n sp bp st log st1 \<Longrightarrow> s \<in> {0..<n} \<Longrightarrow>
     seller_matches st1 ! nat s = - 1 \<Longrightarrow> propose n sp bp s st1 = Inr st2 \<Longrightarrow>
     proposals n sp bp st (log @ [(s, next_buyer sp s st1)]) st2"

text \<open>The state that the initialisation loop leaves.\<close>

definition start :: "int \<Rightarrow> engine_state" where
  "start n = \<lparr>seller_next_choices = replicate (nat n) 0, buyer_final_prefs = replicate (nat n) (- 1),
     seller_matches = replicate (nat n) (- 1), buyer_matches = replicate (nat n) (- 1),
     bachelor_count = n, curr_seller_rank = - 1\<rparr>"

subsection \<open>Invariants of the proposal loop\<close>

definition shape :: "int \<Rightarrow> engine_state \<Rightarrow> bool" where
  "shape n st \<longleftrightarrow>
     length (seller_next_choices st) = nat n \<and> length (buyer_final_prefs st) = nat n \<and>
     length (seller_matches st) = nat n \<and> length (buyer_matches st) = nat n"

definition cursors_ok :: "int \<Rightarrow> engine_state \<Rightarrow> bool" where
  "cursors_ok n st \<longleftrightarrow>
     (\<forall>s. 0 \<le> s \<longrightarrow> s < n \<longrightarrow>
        0 \<le> seller_next_choices st ! nat s \<and> seller_next_choices st ! nat s \<le> n)"

definition matches_ok :: "int \<Rightarrow> engine_state \<Rightarrow> bool" where
  "matches_ok n st \<longleftrightarrow>
     (\<forall>s. 0 \<le> s \<longrightarrow> s < n \<longrightarrow> seller_matches st ! nat s = - 1 \<or>
        (0 \<le> seller_matches st ! nat s \<and> seller_matches st ! nat s < n)) \<and>
     (\<forall>b. 0 \<le> b \<longrightarrow> b < n \<longrightarrow> buyer_matches st ! nat b = - 1 \<or>
        (0 \<le> buyer_matches st ! nat b \<and> buyer_matches st ! nat b < n)) \<and>
     (\<forall>s b. 0 \<le> s \<longrightarrow> s < n \<longrightarrow> 0 \<le> b \<longrightarrow> b < n \<longrightarrow>
        (seller_matches st ! nat s = b \<longleftrightarrow> buyer_matches st ! nat b = s))"

definition last_choice :: "int \<Rightarrow> int list list \<Rightarrow> engine_state \<Rightarrow> bool" where
  "last_choice n sp st \<longleftrightarrow>
     (\<forall>s. 0 \<le> s \<longrightarrow> s < n \<longrightarrow> seller_matches st ! nat s \<noteq> - 1 \<longrightarrow>
        1 \<le> seller_next_choices st ! nat s \<and>
        sp ! nat s ! nat (seller_next_choices st ! nat s - 1) = seller_matches st ! nat s)"

definition rank_cached :: "int \<Rightarrow> int list list \<Rightarrow> engine_state \<Rightarrow> bool" where
  "rank_cached n bp st \<longleftrightarrow>
     (\<forall>b. 0 \<le> b \<longrightarrow> b < n \<longrightarrow> buyer_matches st ! nat b \<noteq> - 1 \<longrightarrow>
        0 \<le> buyer_final_prefs st ! nat b \<and> buyer_final_prefs st ! nat b < n \<and>
        bp ! nat b ! nat (buyer_final_prefs st ! nat b) = buyer_matches st ! nat b)"

definition proposed_held :: "int \<Rightarrow> int list list \<Rightarrow> int list list \<Rightarrow> engine_state \<Rightarrow> bool" where
  "proposed_held n sp bp st \<longleftrightarrow>
     (\<forall>s k. 0 \<le> s \<longrightarrow> s < n \<longrightarrow> 0 \<le> k \<longrightarrow> k < seller_next_choices st ! nat s \<longrightarrow>
        buyer_matches st ! nat (sp ! nat s ! nat k) \<noteq> - 1 \<and>
        (\<exists>j. buyer_final_prefs st ! nat (sp ! nat s ! nat k) \<le> j \<and> j < n \<and>
           bp ! nat (sp ! nat s ! nat k) ! nat j = s))"

definition count_ok :: "int \<Rightarrow> engine_state \<Rightarrow> bool" where
  "count_ok n st \<longleftrightarrow>
     bachelor_count st = int (card {s. 0 \<le> s \<and> s < n \<and> seller_matches st ! nat s = - 1})"

definition inv :: "int \<Rightarrow> int list list \<Rightarrow> int list list \<Rightarrow> engine_state \<Rightarrow> bool" where
  "inv n sp bp st \<longleftrightarrow>
     shape n st \<and> cursors_ok n st \<and> matches_ok n st \<and> last_choice n sp st \<and>
     rank_cached n bp st \<and> proposed_held n sp bp st \<and> count_ok n st"

text \<open>
  A seller has proposed to the buyers before its cursor. Those it is not matched to
  have turned it down, and none of them is its partner in any stable matching.
\<close>

definition no_stable_rejected :: "int \<Rightarrow> int list list \<Rightarrow> int list list \<Rightarrow> engine_state \<Rightarrow> bool" where
  "no_stable_rejected n sp bp st \<longleftrightarrow>
     (\<forall>s k. 0 \<le> s \<longrightarrow> s < n \<longrightarrow> 0 \<le> k \<longrightarrow> k < seller_next_choices st ! nat s \<longrightarrow>
        seller_matches st ! nat s \<noteq> sp ! nat s ! nat k \<longrightarrow>
        (\<forall>ms mb. matching n ms mb \<longrightarrow> stable n sp bp ms mb \<longrightarrow> ms ! nat s \<noteq> sp ! nat s ! nat k))"

definition log_ok :: "int \<Rightarrow> int list list \<Rightarrow> engine_state \<Rightarrow> (int \<times> int) list \<Rightarrow> bool" where
  "log_ok n sp st log \<longleftrightarrow>
     distinct log \<and>
     (\<forall>(s, b) \<in> set log. 0 \<le> s \<and> s < n \<and>
        (\<exists>k. 0 \<le> k \<and> k < seller_next_choices st ! nat s \<and> b = sp ! nat s ! nat k))"

text \<open>Each proposal advances one cursor by one, so the cursors add up to the number of proposals.\<close>

definition total_proposals :: "int \<Rightarrow> engine_state \<Rightarrow> int" where
  "total_proposals n st = (\<Sum>s \<in> {0..<n}. seller_next_choices st ! nat s)"

section \<open>Array accesses and loops\<close>

lemma rd_in: "0 \<le> i \<Longrightarrow> i < int (length xs) \<Longrightarrow> rd xs i = Inr (xs ! nat i)"
  by (simp add: rd_def)

lemma wr_in: "0 \<le> i \<Longrightarrow> i < int (length xs) \<Longrightarrow> wr xs i v = Inr (xs[nat i := v])"
  by (simp add: wr_def)

lemma bnd_Inr [simp]: "bnd (Inr x) f = f x"
  by (simp add: bnd_def)

lemma bnd_Inl [simp]: "bnd (Inl e) f = Inl e"
  by (simp add: bnd_def)

lemma nth_upd_int:
  "0 \<le> i \<Longrightarrow> 0 \<le> j \<Longrightarrow> i < int (length xs) \<Longrightarrow>
   xs[nat i := v] ! nat j = (if i = j then v else xs ! nat j)"
  by (auto simp: nth_list_update)

section \<open>Permutations and ranks\<close>

lemma is_perm_length: "is_perm n row \<Longrightarrow> length row = nat n"
  unfolding is_perm_def using distinct_card[of row] by auto

lemma is_perm_nth: "is_perm n row \<Longrightarrow> 0 \<le> k \<Longrightarrow> k < n \<Longrightarrow> 0 \<le> row ! nat k \<and> row ! nat k < n"
proof -
  assume a: "is_perm n row" "0 \<le> k" "k < n"
  then have "nat k < length row" using is_perm_length[OF a(1)] by simp
  then have "row ! nat k \<in> set row" by simp
  with a(1) show ?thesis by (simp add: is_perm_def)
qed

lemma is_perm_inj: "is_perm n row \<Longrightarrow> 0 \<le> k \<Longrightarrow> k < n \<Longrightarrow> 0 \<le> k' \<Longrightarrow> k' < n \<Longrightarrow>
  row ! nat k = row ! nat k' \<Longrightarrow> k = k'"
proof -
  assume a: "is_perm n row" "0 \<le> k" "k < n" "0 \<le> k'" "k' < n" "row ! nat k = row ! nat k'"
  have "nat k < length row" "nat k' < length row" using is_perm_length[OF a(1)] a by simp_all
  with a(1,6) have "nat k = nat k'" by (simp add: is_perm_def nth_eq_iff_index_eq)
  with a show ?thesis by simp
qed

lemma is_perm_ex: "is_perm n row \<Longrightarrow> 0 \<le> x \<Longrightarrow> x < n \<Longrightarrow> \<exists>k. 0 \<le> k \<and> k < n \<and> row ! nat k = x"
proof -
  assume a: "is_perm n row" "0 \<le> x" "x < n"
  then have "x \<in> set row" by (simp add: is_perm_def)
  then obtain i where i: "i < length row" "row ! i = x" by (auto simp: in_set_conv_nth)
  with is_perm_length[OF a(1)] have "0 \<le> int i \<and> int i < n \<and> row ! nat (int i) = x" by simp
  then show ?thesis by blast
qed

lemma valid_prefs_row: "valid_prefs n P \<Longrightarrow> 0 \<le> s \<Longrightarrow> s < n \<Longrightarrow> is_perm n (P ! nat s)"
  by (simp add: valid_prefs_def)

lemma rank_of_nth: "distinct row \<Longrightarrow> i < length row \<Longrightarrow> rank_of row (row ! i) = int i"
proof (induction row arbitrary: i)
  case Nil
  then show ?case by simp
next
  case (Cons y ys)
  show ?case
  proof (cases i)
    case 0
    then show ?thesis by simp
  next
    case (Suc i')
    with Cons.prems have "ys ! i' \<in> set ys" by simp
    with Cons.prems have "y \<noteq> ys ! i'" by auto
    with Cons Suc show ?thesis by simp
  qed
qed

lemma rank_of_perm: "is_perm n row \<Longrightarrow> 0 \<le> k \<Longrightarrow> k < n \<Longrightarrow> rank_of row (row ! nat k) = k"
  using rank_of_nth[of row "nat k"] is_perm_length[of n row] by (simp add: is_perm_def)

lemma scan_general:
  assumes "\<forall>j \<in> set js. 0 \<le> j \<and> j < int (length row)"
  shows "\<exists>r. for_each (\<lambda>j rank. bnd (rd row j) (\<lambda>v. Inr (if v = x then j else rank))) js r0 = Inr r \<and>
     (if \<exists>j \<in> set js. row ! nat j = x then r \<in> set js \<and> row ! nat r = x else r = r0)"
  using assms
proof (induction js arbitrary: r0)
  case Nil
  then show ?case by simp
next
  case (Cons j js)
  let ?r1 = "if row ! nat j = x then j else r0"
  from Cons.prems have j: "rd row j = Inr (row ! nat j)" by (simp add: rd_in)
  from Cons.IH[of ?r1] Cons.prems
  obtain r where r: "for_each (\<lambda>j rank. bnd (rd row j) (\<lambda>v. Inr (if v = x then j else rank))) js ?r1 = Inr r"
    "if \<exists>j \<in> set js. row ! nat j = x then r \<in> set js \<and> row ! nat r = x else r = ?r1" by auto
  from r(1) j have "for_each (\<lambda>j rank. bnd (rd row j) (\<lambda>v. Inr (if v = x then j else rank))) (j # js) r0 = Inr r"
    by simp
  moreover from r(2) have "if \<exists>j' \<in> set (j # js). row ! nat j' = x then r \<in> set (j # js) \<and> row ! nat r = x else r = r0"
    by (auto split: if_splits)
  ultimately show ?case by blast
qed

lemma rank_scan_perm:
  assumes "is_perm n row" "0 \<le> s" "s < n"
  shows "rank_scan n row s r0 = Inr (rank_of row s)"
proof -
  have len: "length row = nat n" by (rule is_perm_length[OF assms(1)])
  have "\<forall>j \<in> set [0..n - 1]. 0 \<le> j \<and> j < int (length row)" using len by auto
  from scan_general[OF this, of s r0] obtain r where
    r: "rank_scan n row s r0 = Inr r"
    "if \<exists>j \<in> set [0..n - 1]. row ! nat j = s then r \<in> set [0..n - 1] \<and> row ! nat r = s else r = r0"
    unfolding rank_scan_def by blast
  from is_perm_ex[OF assms] obtain k where k: "0 \<le> k" "k < n" "row ! nat k = s" by blast
  then have "\<exists>j \<in> set [0..n - 1]. row ! nat j = s" by auto
  with r(2) have "0 \<le> r" "r < n" "row ! nat r = s" by auto
  with rank_of_perm[OF assms(1), of r] have "rank_of row s = r" by simp
  with r(1) show ?thesis by simp
qed

section \<open>One proposal\<close>

text \<open>What a proposal by an unmatched seller with a cursor below \<open>n\<close> does to the arrays.\<close>

lemma propose_effect:
  assumes vs: "valid_prefs n sp" and vb: "valid_prefs n bp" and sh: "shape n st"
    and mo: "matches_ok n st" and s: "0 \<le> s" "s < n"
    and c: "0 \<le> seller_next_choices st ! nat s" "seller_next_choices st ! nat s < n"
  defines "c \<equiv> seller_next_choices st ! nat s"
  defines "b \<equiv> sp ! nat s ! nat c"
  defines "r \<equiv> rank_of (bp ! nat b) s"
  defines "t \<equiv> buyer_matches st ! nat b"
  shows "\<exists>st'. propose n sp bp s st = Inr st' \<and> shape n st' \<and>
    (\<forall>x. 0 \<le> x \<longrightarrow> x < n \<longrightarrow> seller_next_choices st' ! nat x =
       (if x = s then c + 1 else seller_next_choices st ! nat x)) \<and>
    (t = - 1 \<or> r < buyer_final_prefs st ! nat b \<longrightarrow>
          (\<forall>x. 0 \<le> x \<longrightarrow> x < n \<longrightarrow> seller_matches st' ! nat x =
             (if x = t then - 1 else if x = s then b else seller_matches st ! nat x)) \<and>
          (\<forall>x. 0 \<le> x \<longrightarrow> x < n \<longrightarrow> buyer_matches st' ! nat x =
             (if x = b then s else buyer_matches st ! nat x)) \<and>
          (\<forall>x. 0 \<le> x \<longrightarrow> x < n \<longrightarrow> buyer_final_prefs st' ! nat x =
             (if x = b then r else buyer_final_prefs st ! nat x)) \<and>
          bachelor_count st' = bachelor_count st - (if t = - 1 then 1 else 0)) \<and>
    (\<not> (t = - 1 \<or> r < buyer_final_prefs st ! nat b) \<longrightarrow>
          seller_matches st' = seller_matches st \<and> buyer_matches st' = buyer_matches st \<and>
          buyer_final_prefs st' = buyer_final_prefs st \<and> bachelor_count st' = bachelor_count st)"
proof -
  have len: "length (seller_next_choices st) = nat n" "length (buyer_final_prefs st) = nat n"
    "length (seller_matches st) = nat n" "length (buyer_matches st) = nat n"
    using sh by (simp_all add: shape_def)
  have lsp: "length sp = nat n" "length bp = nat n" using vs vb by (simp_all add: valid_prefs_def)
  have srow: "is_perm n (sp ! nat s)" by (rule valid_prefs_row[OF vs s])
  have b: "0 \<le> b" "b < n" using is_perm_nth[OF srow c] by (simp_all add: b_def c_def)
  have brow: "is_perm n (bp ! nat b)" by (rule valid_prefs_row[OF vb b])
  have e1: "rd (seller_next_choices st) s = Inr c" using s len by (simp add: rd_in c_def)
  have e2: "rd sp s = Inr (sp ! nat s)" using s lsp by (simp add: rd_in)
  have e3: "rd (sp ! nat s) c = Inr b" using c is_perm_length[OF srow] by (simp add: rd_in c_def b_def)
  have e4: "wr (seller_next_choices st) s (c + 1) = Inr ((seller_next_choices st)[nat s := c + 1])"
    using s len by (simp add: wr_in)
  have e5: "rd (buyer_matches st) b = Inr t" using b len by (simp add: rd_in t_def)
  have e6: "rd bp b = Inr (bp ! nat b)" using b lsp by (simp add: rd_in)
  have e7: "rank_scan n (bp ! nat b) s (curr_seller_rank st) = Inr r"
    unfolding r_def by (rule rank_scan_perm[OF brow s])
  have e8: "wr (buyer_final_prefs st) b r = Inr ((buyer_final_prefs st)[nat b := r])"
    using b len by (simp add: wr_in)
  have e9: "wr (buyer_matches st) b s = Inr ((buyer_matches st)[nat b := s])"
    using b len by (simp add: wr_in)
  have e10: "wr (seller_matches st) s b = Inr ((seller_matches st)[nat s := b])"
    using s len by (simp add: wr_in)
  have e11: "rd (buyer_final_prefs st) b = Inr (buyer_final_prefs st ! nat b)"
    using b len by (simp add: rd_in)
  have t: "t = - 1 \<or> (0 \<le> t \<and> t < n)" using mo b by (simp add: matches_ok_def t_def)
  have e12: "t \<noteq> - 1 \<Longrightarrow> wr ((seller_matches st)[nat s := b]) t (- 1) = Inr ((seller_matches st)[nat s := b, nat t := - 1])"
    using t len by (simp add: wr_in)
  show ?thesis
  proof (cases "t = - 1")
    case True
    have "propose n sp bp s st = Inr (st\<lparr>seller_next_choices := (seller_next_choices st)[nat s := c + 1],
        buyer_final_prefs := (buyer_final_prefs st)[nat b := r],
        seller_matches := (seller_matches st)[nat s := b],
        buyer_matches := (buyer_matches st)[nat b := s],
        bachelor_count := bachelor_count st - 1, curr_seller_rank := r\<rparr>)"
      unfolding propose_def using True by (simp add: e1 e2 e3 e4 e5 e6 e7 e8 e9 e10)
    then show ?thesis using True s b len
      by (simp add: shape_def nth_upd_int)
  next
    case False
    with t have tr: "0 \<le> t" "t < n" by auto
    show ?thesis
    proof (cases "r < buyer_final_prefs st ! nat b")
      case True
      have "propose n sp bp s st = Inr (st\<lparr>seller_next_choices := (seller_next_choices st)[nat s := c + 1],
        buyer_final_prefs := (buyer_final_prefs st)[nat b := r],
        seller_matches := (seller_matches st)[nat s := b, nat t := - 1],
        buyer_matches := (buyer_matches st)[nat b := s], curr_seller_rank := r\<rparr>)"
        unfolding propose_def using True False by (simp add: e1 e2 e3 e4 e5 e6 e7 e8 e9 e10 e11 e12)
      then show ?thesis using True False s b tr len
        by (simp add: shape_def nth_upd_int)
    next
      case nlt: False
      have "propose n sp bp s st = Inr (st\<lparr>seller_next_choices := (seller_next_choices st)[nat s := c + 1],
          curr_seller_rank := r\<rparr>)"
        unfolding propose_def using nlt False by (simp add: e1 e2 e3 e4 e5 e6 e7 e11)
      then show ?thesis using nlt False s len
        by (simp add: shape_def nth_upd_int)
    qed
  qed
qed

lemma rank_of_range:
  assumes "is_perm n row" "0 \<le> x" "x < n"
  shows "0 \<le> rank_of row x \<and> rank_of row x < n \<and> row ! nat (rank_of row x) = x"
proof -
  from is_perm_ex[OF assms] obtain k where k: "0 \<le> k" "k < n" "row ! nat k = x" by blast
  with rank_of_perm[OF assms(1) k(1,2)] show ?thesis by simp
qed

lemma matches_ok_iff:
  "matches_ok n st \<Longrightarrow> 0 \<le> s \<Longrightarrow> s < n \<Longrightarrow> 0 \<le> b \<Longrightarrow> b < n \<Longrightarrow>
   (seller_matches st ! nat s = b) = (buyer_matches st ! nat b = s)"
  unfolding matches_ok_def by blast

lemma matches_ok_seller:
  "matches_ok n st \<Longrightarrow> 0 \<le> s \<Longrightarrow> s < n \<Longrightarrow>
   seller_matches st ! nat s = - 1 \<or> (0 \<le> seller_matches st ! nat s \<and> seller_matches st ! nat s < n)"
  unfolding matches_ok_def by blast

lemma matches_ok_buyer:
  "matches_ok n st \<Longrightarrow> 0 \<le> b \<Longrightarrow> b < n \<Longrightarrow>
   buyer_matches st ! nat b = - 1 \<or> (0 \<le> buyer_matches st ! nat b \<and> buyer_matches st ! nat b < n)"
  unfolding matches_ok_def by blast

lemma inv_step:
  assumes vs: "valid_prefs n sp" and vb: "valid_prefs n bp" and iv: "inv n sp bp st"
    and s: "0 \<le> s" "s < n" and un: "seller_matches st ! nat s = - 1"
    and cn: "seller_next_choices st ! nat s < n"
  shows "\<exists>st'. propose n sp bp s st = Inr st' \<and> inv n sp bp st' \<and>
    (\<forall>x. 0 \<le> x \<longrightarrow> x < n \<longrightarrow> seller_next_choices st' ! nat x =
       (if x = s then seller_next_choices st ! nat s + 1 else seller_next_choices st ! nat x))"
proof -
  define c where "c = seller_next_choices st ! nat s"
  define b where "b = sp ! nat s ! nat c"
  define r where "r = rank_of (bp ! nat b) s"
  define t where "t = buyer_matches st ! nat b"
  from iv have sh: "shape n st" and co: "cursors_ok n st" and mo: "matches_ok n st"
    and lc: "last_choice n sp st" and rc: "rank_cached n bp st"
    and ph: "proposed_held n sp bp st" and cnt: "count_ok n st"
    by (simp_all add: inv_def)
  have c0: "0 \<le> c" "c < n" using co s cn by (simp_all add: cursors_ok_def c_def)
  have srow: "is_perm n (sp ! nat s)" by (rule valid_prefs_row[OF vs s])
  have b: "0 \<le> b" "b < n" using is_perm_nth[OF srow c0] by (simp_all add: b_def)
  have brow: "is_perm n (bp ! nat b)" by (rule valid_prefs_row[OF vb b])
  have r: "0 \<le> r" "r < n" "bp ! nat b ! nat r = s"
    using rank_of_range[OF brow s] by (simp_all add: r_def)
  have t: "t \<noteq> - 1 \<Longrightarrow> 0 \<le> t \<and> t < n \<and> seller_matches st ! nat t = b \<and> t \<noteq> s"
  proof -
    assume "t \<noteq> - 1"
    with matches_ok_buyer[OF mo b] have tr: "0 \<le> t" "t < n" by (auto simp: t_def)
    with matches_ok_iff[OF mo tr b] have "seller_matches st ! nat t = b" by (simp add: t_def)
    with tr un b show ?thesis by auto
  qed
  have free: "t = - 1 \<Longrightarrow> 0 \<le> x \<Longrightarrow> x < n \<Longrightarrow> seller_matches st ! nat x \<noteq> b" for x
    using matches_ok_iff[OF mo _ _ b, of x] by (auto simp: t_def)
  have tcache: "t \<noteq> - 1 \<Longrightarrow> 0 \<le> buyer_final_prefs st ! nat b \<and> buyer_final_prefs st ! nat b < n \<and>
      bp ! nat b ! nat (buyer_final_prefs st ! nat b) = t"
    using rc b by (simp add: rank_cached_def t_def)
  have "\<exists>st'. propose n sp bp s st = Inr st' \<and> shape n st' \<and>
    (\<forall>x. 0 \<le> x \<longrightarrow> x < n \<longrightarrow> seller_next_choices st' ! nat x =
       (if x = s then c + 1 else seller_next_choices st ! nat x)) \<and>
    (t = - 1 \<or> r < buyer_final_prefs st ! nat b \<longrightarrow>
          (\<forall>x. 0 \<le> x \<longrightarrow> x < n \<longrightarrow> seller_matches st' ! nat x =
             (if x = t then - 1 else if x = s then b else seller_matches st ! nat x)) \<and>
          (\<forall>x. 0 \<le> x \<longrightarrow> x < n \<longrightarrow> buyer_matches st' ! nat x =
             (if x = b then s else buyer_matches st ! nat x)) \<and>
          (\<forall>x. 0 \<le> x \<longrightarrow> x < n \<longrightarrow> buyer_final_prefs st' ! nat x =
             (if x = b then r else buyer_final_prefs st ! nat x)) \<and>
          bachelor_count st' = bachelor_count st - (if t = - 1 then 1 else 0)) \<and>
    (\<not> (t = - 1 \<or> r < buyer_final_prefs st ! nat b) \<longrightarrow>
          seller_matches st' = seller_matches st \<and> buyer_matches st' = buyer_matches st \<and>
          buyer_final_prefs st' = buyer_final_prefs st \<and> bachelor_count st' = bachelor_count st)"
    unfolding c_def b_def r_def t_def
    by (rule propose_effect[OF vs vb sh mo s c0[unfolded c_def]])
  then obtain st' where st': "propose n sp bp s st = Inr st'" and sh': "shape n st'"
    and snc: "\<And>x. 0 \<le> x \<Longrightarrow> x < n \<Longrightarrow> seller_next_choices st' ! nat x =
       (if x = s then c + 1 else seller_next_choices st ! nat x)"
    and won: "t = - 1 \<or> r < buyer_final_prefs st ! nat b \<Longrightarrow>
       (\<forall>x. 0 \<le> x \<longrightarrow> x < n \<longrightarrow> seller_matches st' ! nat x =
             (if x = t then - 1 else if x = s then b else seller_matches st ! nat x)) \<and>
       (\<forall>x. 0 \<le> x \<longrightarrow> x < n \<longrightarrow> buyer_matches st' ! nat x =
             (if x = b then s else buyer_matches st ! nat x)) \<and>
       (\<forall>x. 0 \<le> x \<longrightarrow> x < n \<longrightarrow> buyer_final_prefs st' ! nat x =
             (if x = b then r else buyer_final_prefs st ! nat x)) \<and>
       bachelor_count st' = bachelor_count st - (if t = - 1 then 1 else 0)"
    and lost: "\<not> (t = - 1 \<or> r < buyer_final_prefs st ! nat b) \<Longrightarrow>
       seller_matches st' = seller_matches st \<and> buyer_matches st' = buyer_matches st \<and>
       buyer_final_prefs st' = buyer_final_prefs st \<and> bachelor_count st' = bachelor_count st"
    by blast
  have co': "cursors_ok n st'"
    unfolding cursors_ok_def using snc c0 co by (simp add: cursors_ok_def)
  have mo': "matches_ok n st'"
  proof (cases "t = - 1 \<or> r < buyer_final_prefs st ! nat b")
    case True
    note w = won[OF True]
    have 1: "\<forall>x. 0 \<le> x \<longrightarrow> x < n \<longrightarrow> seller_matches st' ! nat x = - 1 \<or>
        (0 \<le> seller_matches st' ! nat x \<and> seller_matches st' ! nat x < n)"
      using w b matches_ok_seller[OF mo] by simp
    have 2: "\<forall>x. 0 \<le> x \<longrightarrow> x < n \<longrightarrow> buyer_matches st' ! nat x = - 1 \<or>
        (0 \<le> buyer_matches st' ! nat x \<and> buyer_matches st' ! nat x < n)"
      using w s matches_ok_buyer[OF mo] by simp
    have 3: "(seller_matches st' ! nat x = y) = (buyer_matches st' ! nat y = x)"
      if x: "0 \<le> x" "x < n" and y: "0 \<le> y" "y < n" for x y
    proof -
      have old: "(seller_matches st ! nat x = y) = (buyer_matches st ! nat y = x)"
        by (rule matches_ok_iff[OF mo x y])
      have "(seller_matches st ! nat s = y) = (buyer_matches st ! nat y = s)"
        by (rule matches_ok_iff[OF mo s y])
      with un y have olds: "buyer_matches st ! nat y \<noteq> s" by auto
      have oldb: "(seller_matches st ! nat x = b) = (t = x)"
        using matches_ok_iff[OF mo x b] by (auto simp: t_def)
      have oldt: "(buyer_matches st ! nat y = t) = (y = b)" if "t \<noteq> - 1"
      proof -
        from t[OF that] have tt: "0 \<le> t" "t < n" "seller_matches st ! nat t = b" by auto
        have "(seller_matches st ! nat t = y) = (buyer_matches st ! nat y = t)"
          by (rule matches_ok_iff[OF mo tt(1,2) y])
        with tt show ?thesis by auto
      qed
      show ?thesis using w x y old olds oldb oldt t by auto
    qed
    show ?thesis unfolding matches_ok_def using 1 2 3 by blast
  next
    case False
    with lost mo show ?thesis by (simp add: matches_ok_def)
  qed
  have lc': "last_choice n sp st'"
    unfolding last_choice_def
  proof (intro allI impI)
    fix x assume x: "0 \<le> x" "x < n" and m: "seller_matches st' ! nat x \<noteq> - 1"
    have old: "seller_matches st ! nat x \<noteq> - 1 \<Longrightarrow> 1 \<le> seller_next_choices st ! nat x \<and>
        sp ! nat x ! nat (seller_next_choices st ! nat x - 1) = seller_matches st ! nat x"
      using lc x unfolding last_choice_def by blast
    show "1 \<le> seller_next_choices st' ! nat x \<and>
        sp ! nat x ! nat (seller_next_choices st' ! nat x - 1) = seller_matches st' ! nat x"
    proof (cases "t = - 1 \<or> r < buyer_final_prefs st ! nat b")
      case True
      from won[OF True] x have
        "seller_matches st' ! nat x = (if x = t then - 1 else if x = s then b else seller_matches st ! nat x)"
        by blast
      with m old snc[OF x] c0 show ?thesis by (auto simp: b_def split: if_splits)
    next
      case False
      with lost have "seller_matches st' = seller_matches st" by blast
      with m old snc[OF x] un show ?thesis by (auto split: if_splits)
    qed
  qed
  have rc': "rank_cached n bp st'"
    unfolding rank_cached_def
  proof (intro allI impI)
    fix y assume y: "0 \<le> y" "y < n" and m: "buyer_matches st' ! nat y \<noteq> - 1"
    have old: "buyer_matches st ! nat y \<noteq> - 1 \<Longrightarrow> 0 \<le> buyer_final_prefs st ! nat y \<and>
        buyer_final_prefs st ! nat y < n \<and>
        bp ! nat y ! nat (buyer_final_prefs st ! nat y) = buyer_matches st ! nat y"
      using rc y unfolding rank_cached_def by blast
    show "0 \<le> buyer_final_prefs st' ! nat y \<and> buyer_final_prefs st' ! nat y < n \<and>
        bp ! nat y ! nat (buyer_final_prefs st' ! nat y) = buyer_matches st' ! nat y"
    proof (cases "t = - 1 \<or> r < buyer_final_prefs st ! nat b")
      case True
      from won[OF True] y have
        "buyer_matches st' ! nat y = (if y = b then s else buyer_matches st ! nat y)"
        "buyer_final_prefs st' ! nat y = (if y = b then r else buyer_final_prefs st ! nat y)"
        by blast+
      with m old r show ?thesis by (auto split: if_splits)
    next
      case False
      with lost have "buyer_matches st' = buyer_matches st" "buyer_final_prefs st' = buyer_final_prefs st"
        by blast+
      with m old show ?thesis by simp
    qed
  qed
  have ph': "proposed_held n sp bp st'"
    unfolding proposed_held_def
  proof (intro allI impI)
    fix x k assume x: "0 \<le> x" "x < n" and k: "0 \<le> k" "k < seller_next_choices st' ! nat x"
    define y where "y = sp ! nat x ! nat k"
    have "seller_next_choices st' ! nat x \<le> n" using co' x by (simp add: cursors_ok_def)
    with k have kn: "k < n" by simp
    have y: "0 \<le> y" "y < n"
      using is_perm_nth[OF valid_prefs_row[OF vs x] k(1) kn] by (simp_all add: y_def)
    have old: "k < seller_next_choices st ! nat x \<Longrightarrow> buyer_matches st ! nat y \<noteq> - 1 \<and>
        (\<exists>j. buyer_final_prefs st ! nat y \<le> j \<and> j < n \<and> bp ! nat y ! nat j = x)"
      using ph x k(1) unfolding proposed_held_def y_def by blast
    have new: "y = b" if "\<not> k < seller_next_choices st ! nat x"
    proof -
      from that k snc[OF x] have "x = s" by (auto split: if_splits)
      with that k snc[OF x] have "k = c" by (simp add: c_def)
      with \<open>x = s\<close> show ?thesis by (simp add: y_def b_def)
    qed
    have xs: "x = s" if "\<not> k < seller_next_choices st ! nat x"
      using that k snc[OF x] by (auto split: if_splits)
    have "buyer_matches st' ! nat y \<noteq> - 1 \<and>
        (\<exists>j. buyer_final_prefs st' ! nat y \<le> j \<and> j < n \<and> bp ! nat y ! nat j = x)"
    proof (cases "t = - 1 \<or> r < buyer_final_prefs st ! nat b")
      case True
      from won[OF True] y have bm': "buyer_matches st' ! nat y = (if y = b then s else buyer_matches st ! nat y)"
        and bf': "buyer_final_prefs st' ! nat y = (if y = b then r else buyer_final_prefs st ! nat y)"
        by blast+
      show ?thesis
      proof (cases "k < seller_next_choices st ! nat x")
        case kold: True
        from old[OF kold] obtain j where j: "buyer_matches st ! nat y \<noteq> - 1"
          "buyer_final_prefs st ! nat y \<le> j" "j < n" "bp ! nat y ! nat j = x" by blast
        show ?thesis
        proof (cases "y = b")
          case yb: True
          with j(1) have "t \<noteq> - 1" by (simp add: t_def)
          with True have "r < buyer_final_prefs st ! nat b" by simp
          with j yb have "r \<le> j" by simp
          with j yb bm' bf' s show ?thesis by auto
        next
          case False
          with j bm' bf' show ?thesis by auto
        qed
      next
        case knew: False
        from new[OF knew] xs[OF knew] bm' bf' s r show ?thesis by auto
      qed
    next
      case False
      with lost have eq: "buyer_matches st' = buyer_matches st" "buyer_final_prefs st' = buyer_final_prefs st"
        by blast+
      show ?thesis
      proof (cases "k < seller_next_choices st ! nat x")
        case True
        from old[OF True] eq show ?thesis by simp
      next
        case knew: False
        from False have "t \<noteq> - 1" "buyer_final_prefs st ! nat b \<le> r" by auto
        with new[OF knew] xs[OF knew] eq r show ?thesis by (auto simp: t_def)
      qed
    qed
    then show "buyer_matches st' ! nat (sp ! nat x ! nat k) \<noteq> - 1 \<and>
        (\<exists>j. buyer_final_prefs st' ! nat (sp ! nat x ! nat k) \<le> j \<and> j < n \<and>
           bp ! nat (sp ! nat x ! nat k) ! nat j = x)"
      by (simp add: y_def)
  qed
  have cnt': "count_ok n st'"
  proof -
    define U where "U = {x. 0 \<le> x \<and> x < n \<and> seller_matches st ! nat x = - 1}"
    define U' where "U' = {x. 0 \<le> x \<and> x < n \<and> seller_matches st' ! nat x = - 1}"
    have fin: "finite U" unfolding U_def by (rule finite_subset[of _ "{0..<n}"]) auto
    have sU: "s \<in> U" using s un by (simp add: U_def)
    have bc: "bachelor_count st = int (card U)" using cnt by (simp add: count_ok_def U_def)
    have rem: "card U = Suc (card (U - {s}))" by (rule card.remove[OF fin sU])
    have "bachelor_count st' = int (card U')"
    proof (cases "t = - 1 \<or> r < buyer_final_prefs st ! nat b")
      case True
      note w = won[OF True]
      have sm': "seller_matches st' ! nat x =
          (if x = t then - 1 else if x = s then b else seller_matches st ! nat x)"
        if "0 \<le> x" "x < n" for x using w that by blast
      have bcw: "bachelor_count st' = bachelor_count st - (if t = - 1 then 1 else 0)"
        using w by blast
      show ?thesis
      proof (cases "t = - 1")
        case t1: True
        have "(x \<in> U') = (x \<in> U - {s})" for x
        proof (cases "0 \<le> x \<and> x < n")
          case True
          then have "seller_matches st' ! nat x =
            (if x = t then - 1 else if x = s then b else seller_matches st ! nat x)"
            using sm' by blast
          moreover have "x \<noteq> t" using True t1 by simp
          ultimately show ?thesis using True b by (cases "x = s") (simp_all add: U_def U'_def)
        next
          case False
          then show ?thesis by (auto simp: U_def U'_def)
        qed
        then have "U' = U - {s}" by blast
        with rem have "int (card U') = int (card U) - 1" by simp
        with bcw t1 bc show ?thesis by simp
      next
        case t2: False
        from t[OF t2] have tt: "0 \<le> t" "t < n" "seller_matches st ! nat t = b" "t \<noteq> s" by auto
        have "(x \<in> U') = (x \<in> insert t (U - {s}))" for x
        proof (cases "0 \<le> x \<and> x < n")
          case True
          then have e: "seller_matches st' ! nat x =
            (if x = t then - 1 else if x = s then b else seller_matches st ! nat x)"
            using sm' by blast
          show ?thesis
          proof (cases "x = t")
            case True
            with e tt show ?thesis by (simp add: U_def U'_def)
          next
            case False
            with e True b show ?thesis by (cases "x = s") (simp_all add: U_def U'_def)
          qed
        next
          case False
          with tt show ?thesis by (auto simp: U_def U'_def)
        qed
        then have eq: "U' = insert t (U - {s})" by blast
        have "t \<notin> U - {s}" using tt b by (simp add: U_def)
        moreover have "finite (U - {s})" using fin by simp
        ultimately have "card (insert t (U - {s})) = Suc (card (U - {s}))" by simp
        with eq rem have "card U' = card U" by simp
        with bcw t2 bc show ?thesis by simp
      qed
    next
      case False
      with lost have "seller_matches st' = seller_matches st" "bachelor_count st' = bachelor_count st"
        by blast+
      with bc show ?thesis by (simp add: U_def U'_def)
    qed
    then show ?thesis by (simp add: count_ok_def U'_def)
  qed
  have "inv n sp bp st'"
    unfolding inv_def using sh' co' mo' lc' rc' ph' cnt' by blast
  moreover have "\<forall>x. 0 \<le> x \<longrightarrow> x < n \<longrightarrow> seller_next_choices st' ! nat x =
       (if x = s then seller_next_choices st ! nat s + 1 else seller_next_choices st ! nat x)"
    using snc unfolding c_def by blast
  ultimately show ?thesis using st' by blast
qed

section \<open>Termination of the proposal loop\<close>

text \<open>An unmatched seller has not reached the end of its list: otherwise all buyers would be matched.\<close>

lemma unmatched_cursor:
  assumes vs: "valid_prefs n sp" and iv: "inv n sp bp st"
    and s: "0 \<le> s" "s < n" and un: "seller_matches st ! nat s = - 1"
  shows "seller_next_choices st ! nat s < n"
proof (rule ccontr)
  assume "\<not> seller_next_choices st ! nat s < n"
  then have full: "n \<le> seller_next_choices st ! nat s" by simp
  from iv have mo: "matches_ok n st" and ph: "proposed_held n sp bp st"
    by (simp_all add: inv_def)
  have srow: "is_perm n (sp ! nat s)" by (rule valid_prefs_row[OF vs s])
  define f where "f = (\<lambda>y. buyer_matches st ! nat y)"
  have taken: "f y \<noteq> - 1" if y: "0 \<le> y" "y < n" for y
  proof -
    from is_perm_ex[OF srow y] obtain k where k: "0 \<le> k" "k < n" "sp ! nat s ! nat k = y" by blast
    with full have "k < seller_next_choices st ! nat s" by simp
    with ph s k(1) have "buyer_matches st ! nat (sp ! nat s ! nat k) \<noteq> - 1"
      unfolding proposed_held_def by blast
    with k show ?thesis by (simp add: f_def)
  qed
  have rng: "0 \<le> f y \<and> f y < n" if y: "0 \<le> y" "y < n" for y
    using matches_ok_buyer[OF mo y] taken[OF y] by (simp add: f_def)
  have "f ` {0..<n} \<subseteq> {0..<n}" using rng by auto
  moreover have "inj_on f {0..<n}"
  proof (rule inj_onI)
    fix y1 y2 assume y: "y1 \<in> {0..<n}" "y2 \<in> {0..<n}" and e: "f y1 = f y2"
    from y have y1: "0 \<le> y1" "y1 < n" and y2: "0 \<le> y2" "y2 < n" by simp_all
    from rng[OF y1] have x: "0 \<le> f y1" "f y1 < n" by simp_all
    from matches_ok_iff[OF mo x y1] have "seller_matches st ! nat (f y1) = y1" by (simp add: f_def)
    moreover from matches_ok_iff[OF mo x y2] e have "seller_matches st ! nat (f y1) = y2"
      by (simp add: f_def)
    ultimately show "y1 = y2" by simp
  qed
  ultimately have "f ` {0..<n} = {0..<n}" by (intro endo_inj_surj) simp_all
  with s have "s \<in> f ` {0..<n}" by simp
  then obtain y where y: "0 \<le> y" "y < n" "f y = s" by auto
  from matches_ok_iff[OF mo s y(1,2)] y(3) have "seller_matches st ! nat s = y" by (simp add: f_def)
  with un y show False by simp
qed

lemma total_step:
  assumes s: "0 \<le> s" "s < n"
    and "\<forall>x. 0 \<le> x \<longrightarrow> x < n \<longrightarrow> seller_next_choices st' ! nat x =
       (if x = s then seller_next_choices st ! nat s + 1 else seller_next_choices st ! nat x)"
  shows "total_proposals n st' = total_proposals n st + 1"
proof -
  have sA: "s \<in> {0..<n}" using s by simp
  have fin: "finite {0..<n}" by simp
  have "total_proposals n st' =
      seller_next_choices st' ! nat s + (\<Sum>x \<in> {0..<n} - {s}. seller_next_choices st' ! nat x)"
    unfolding total_proposals_def by (rule sum.remove[OF fin sA])
  also have "(\<Sum>x \<in> {0..<n} - {s}. seller_next_choices st' ! nat x) =
      (\<Sum>x \<in> {0..<n} - {s}. seller_next_choices st ! nat x)"
    by (rule sum.cong) (use assms(3) in auto)
  also have "seller_next_choices st' ! nat s = seller_next_choices st ! nat s + 1"
    using assms by simp
  finally have "total_proposals n st' =
      (seller_next_choices st ! nat s + (\<Sum>x \<in> {0..<n} - {s}. seller_next_choices st ! nat x)) + 1"
    by simp
  also have "seller_next_choices st ! nat s + (\<Sum>x \<in> {0..<n} - {s}. seller_next_choices st ! nat x) =
      total_proposals n st"
    unfolding total_proposals_def by (rule sum.remove[OF fin sA, symmetric])
  finally show ?thesis .
qed

lemma total_bound:
  assumes "cursors_ok n st" "0 \<le> n"
  shows "total_proposals n st \<le> n * n"
proof -
  have "(\<Sum>s \<in> {0..<n}. seller_next_choices st ! nat s) \<le> of_nat (card {0..<n}) * n"
    by (rule sum_bounded_above) (use assms in \<open>simp add: cursors_ok_def\<close>)
  with assms(2) show ?thesis by (simp add: total_proposals_def)
qed

lemma list_eq_replicate:
  assumes "length xs = nat n" "\<And>x. 0 \<le> x \<Longrightarrow> x < n \<Longrightarrow> xs ! nat x = v"
  shows "xs = replicate (nat n) v"
proof (rule nth_equalityI)
  show "length xs = length (replicate (nat n) v)" using assms(1) by simp
next
  fix i assume "i < length xs"
  with assms(1) have "0 \<le> int i" "int i < n" by simp_all
  from assms(2)[OF this] \<open>i < length xs\<close> assms(1) show "xs ! i = replicate (nat n) v ! i" by simp
qed

lemma init_loop:
  assumes "shape n st" "\<forall>j \<in> set js. 0 \<le> j \<and> j < n"
  shows "\<exists>st'. for_each init_body js st = Inr st' \<and> shape n st' \<and>
    bachelor_count st' = bachelor_count st \<and> curr_seller_rank st' = curr_seller_rank st \<and>
    (\<forall>x. 0 \<le> x \<longrightarrow> x < n \<longrightarrow>
       seller_next_choices st' ! nat x = (if x \<in> set js then 0 else seller_next_choices st ! nat x) \<and>
       buyer_final_prefs st' ! nat x = (if x \<in> set js then - 1 else buyer_final_prefs st ! nat x) \<and>
       seller_matches st' ! nat x = (if x \<in> set js then - 1 else seller_matches st ! nat x) \<and>
       buyer_matches st' ! nat x = (if x \<in> set js then - 1 else buyer_matches st ! nat x))"
  using assms
proof (induction js arbitrary: st)
  case Nil
  then show ?case by simp
next
  case (Cons j js)
  from Cons.prems have j: "0 \<le> j" "j < n" by simp_all
  from Cons.prems(1) have len: "length (seller_next_choices st) = nat n"
    "length (buyer_final_prefs st) = nat n" "length (seller_matches st) = nat n"
    "length (buyer_matches st) = nat n" by (simp_all add: shape_def)
  define st1 where "st1 = st\<lparr>seller_next_choices := (seller_next_choices st)[nat j := 0],
     buyer_final_prefs := (buyer_final_prefs st)[nat j := - 1],
     seller_matches := (seller_matches st)[nat j := - 1],
     buyer_matches := (buyer_matches st)[nat j := - 1]\<rparr>"
  have b1: "init_body j st = Inr st1"
    using j len by (simp add: init_body_def wr_in st1_def)
  have sh1: "shape n st1" using len by (simp add: shape_def st1_def)
  from Cons.IH[OF sh1] Cons.prems(2) obtain st' where st':
    "for_each init_body js st1 = Inr st'" "shape n st'"
    "bachelor_count st' = bachelor_count st1" "curr_seller_rank st' = curr_seller_rank st1"
    "\<And>x. 0 \<le> x \<Longrightarrow> x < n \<Longrightarrow>
       seller_next_choices st' ! nat x = (if x \<in> set js then 0 else seller_next_choices st1 ! nat x) \<and>
       buyer_final_prefs st' ! nat x = (if x \<in> set js then - 1 else buyer_final_prefs st1 ! nat x) \<and>
       seller_matches st' ! nat x = (if x \<in> set js then - 1 else seller_matches st1 ! nat x) \<and>
       buyer_matches st' ! nat x = (if x \<in> set js then - 1 else buyer_matches st1 ! nat x)"
    by auto
  have "for_each init_body (j # js) st = Inr st'" using b1 st'(1) by simp
  moreover have "bachelor_count st' = bachelor_count st" "curr_seller_rank st' = curr_seller_rank st"
    using st'(3,4) by (simp_all add: st1_def)
  moreover have "seller_next_choices st' ! nat x = (if x \<in> set (j # js) then 0 else seller_next_choices st ! nat x) \<and>
       buyer_final_prefs st' ! nat x = (if x \<in> set (j # js) then - 1 else buyer_final_prefs st ! nat x) \<and>
       seller_matches st' ! nat x = (if x \<in> set (j # js) then - 1 else seller_matches st ! nat x) \<and>
       buyer_matches st' ! nat x = (if x \<in> set (j # js) then - 1 else buyer_matches st ! nat x)"
    if "0 \<le> x" "x < n" for x
    using st'(5)[OF that] that j len by (simp add: st1_def nth_upd_int)
  ultimately show ?case using st'(2) by blast
qed

lemma init_state_start: "init_state n = Inr (start n)"
proof -
  define st0 where "st0 = \<lparr>seller_next_choices = replicate (nat n) 0, buyer_final_prefs = replicate (nat n) 0,
        seller_matches = replicate (nat n) 0, buyer_matches = replicate (nat n) 0,
        bachelor_count = n, curr_seller_rank = - 1\<rparr>"
  have sh: "shape n st0" by (simp add: shape_def st0_def)
  have "\<forall>j \<in> set [0..n - 1]. 0 \<le> j \<and> j < n" by simp
  from init_loop[OF sh this] obtain st' where st':
    "for_each init_body [0..n - 1] st0 = Inr st'" "shape n st'"
    "bachelor_count st' = bachelor_count st0" "curr_seller_rank st' = curr_seller_rank st0"
    "\<And>x. 0 \<le> x \<Longrightarrow> x < n \<Longrightarrow>
       seller_next_choices st' ! nat x = (if x \<in> set [0..n - 1] then 0 else seller_next_choices st0 ! nat x) \<and>
       buyer_final_prefs st' ! nat x = (if x \<in> set [0..n - 1] then - 1 else buyer_final_prefs st0 ! nat x) \<and>
       seller_matches st' ! nat x = (if x \<in> set [0..n - 1] then - 1 else seller_matches st0 ! nat x) \<and>
       buyer_matches st' ! nat x = (if x \<in> set [0..n - 1] then - 1 else buyer_matches st0 ! nat x)"
    by blast
  have 1: "seller_next_choices st' = replicate (nat n) 0"
    by (rule list_eq_replicate) (use st'(2,5) in \<open>simp_all add: shape_def\<close>)
  have 2: "buyer_final_prefs st' = replicate (nat n) (- 1)"
    by (rule list_eq_replicate) (use st'(2,5) in \<open>simp_all add: shape_def\<close>)
  have 3: "seller_matches st' = replicate (nat n) (- 1)"
    by (rule list_eq_replicate) (use st'(2,5) in \<open>simp_all add: shape_def\<close>)
  have 4: "buyer_matches st' = replicate (nat n) (- 1)"
    by (rule list_eq_replicate) (use st'(2,5) in \<open>simp_all add: shape_def\<close>)
  have "st' = start n"
    using 1 2 3 4 st'(3,4) by (simp add: start_def st0_def)
  with st'(1) show ?thesis by (simp add: init_state_def st0_def)
qed

lemma inv_start:
  assumes "0 \<le> n"
  shows "inv n sp bp (start n)"
proof -
  have "{s. 0 \<le> s \<and> s < n \<and> seller_matches (start n) ! nat s = - 1} = {0..<n}"
    by (auto simp: start_def)
  then have "count_ok n (start n)"
    using assms by (simp add: count_ok_def start_def)
  then show ?thesis
    by (simp add: inv_def shape_def cursors_ok_def matches_ok_def last_choice_def rank_cached_def
      proposed_held_def start_def)
qed

lemma seller_turn_ok:
  assumes vs: "valid_prefs n sp" and vb: "valid_prefs n bp" and iv: "inv n sp bp st"
    and s: "0 \<le> s" "s < n" and pr: "proposals n sp bp st0 log st"
  shows "\<exists>st' log'. seller_turn n sp bp s st = Inr st' \<and> inv n sp bp st' \<and>
    proposals n sp bp st0 log' st' \<and> total_proposals n st \<le> total_proposals n st' \<and>
    (seller_matches st ! nat s = - 1 \<longrightarrow> total_proposals n st < total_proposals n st')"
proof -
  from iv have "length (seller_matches st) = nat n" by (simp add: inv_def shape_def)
  with s have e: "rd (seller_matches st) s = Inr (seller_matches st ! nat s)" by (simp add: rd_in)
  show ?thesis
  proof (cases "seller_matches st ! nat s = - 1")
    case True
    from inv_step[OF vs vb iv s True unmatched_cursor[OF vs iv s True]]
    obtain st' where st': "propose n sp bp s st = Inr st'" "inv n sp bp st'"
      "\<forall>x. 0 \<le> x \<longrightarrow> x < n \<longrightarrow> seller_next_choices st' ! nat x =
       (if x = s then seller_next_choices st ! nat s + 1 else seller_next_choices st ! nat x)"
      by blast
    have "seller_turn n sp bp s st = Inr st'" using e True st'(1) by (simp add: seller_turn_def)
    moreover have "proposals n sp bp st0 (log @ [(s, next_buyer sp s st)]) st'"
      by (rule one_more[OF pr _ True st'(1)]) (use s in simp)
    moreover have "total_proposals n st' = total_proposals n st + 1"
      by (rule total_step[OF s st'(3)])
    ultimately show ?thesis using st'(2) by auto
  next
    case False
    then have "seller_turn n sp bp s st = Inr st" using e by (simp add: seller_turn_def)
    with iv pr False show ?thesis by auto
  qed
qed

lemma sellers_loop:
  assumes vs: "valid_prefs n sp" and vb: "valid_prefs n bp" and iv: "inv n sp bp st"
    and js: "\<forall>j \<in> set js. 0 \<le> j \<and> j < n" and pr: "proposals n sp bp st0 log st"
  shows "\<exists>st' log'. for_each (seller_turn n sp bp) js st = Inr st' \<and> inv n sp bp st' \<and>
    proposals n sp bp st0 log' st' \<and> total_proposals n st \<le> total_proposals n st' \<and>
    ((\<exists>x \<in> set js. seller_matches st ! nat x = - 1) \<longrightarrow> total_proposals n st < total_proposals n st')"
  using iv js pr
proof (induction js arbitrary: st log)
  case Nil
  then show ?case by auto
next
  case (Cons j js)
  from Cons.prems(2) have j: "0 \<le> j" "j < n" and js: "\<forall>j \<in> set js. 0 \<le> j \<and> j < n" by simp_all
  from seller_turn_ok[OF vs vb Cons.prems(1) j Cons.prems(3)]
  obtain st1 log1 where st1: "seller_turn n sp bp j st = Inr st1" "inv n sp bp st1"
    "proposals n sp bp st0 log1 st1" "total_proposals n st \<le> total_proposals n st1"
    "seller_matches st ! nat j = - 1 \<longrightarrow> total_proposals n st < total_proposals n st1"
    by blast
  from Cons.IH[OF st1(2) js st1(3)]
  obtain st' log' where st': "for_each (seller_turn n sp bp) js st1 = Inr st'" "inv n sp bp st'"
    "proposals n sp bp st0 log' st'" "total_proposals n st1 \<le> total_proposals n st'"
    "(\<exists>x \<in> set js. seller_matches st1 ! nat x = - 1) \<longrightarrow> total_proposals n st1 < total_proposals n st'"
    by blast
  have run: "for_each (seller_turn n sp bp) (j # js) st = Inr st'" using st1(1) st'(1) by simp
  have le: "total_proposals n st \<le> total_proposals n st'" using st1(4) st'(4) by simp
  have lt: "total_proposals n st < total_proposals n st'"
    if ex: "\<exists>x \<in> set (j # js). seller_matches st ! nat x = - 1"
  proof (cases "seller_matches st ! nat j = - 1")
    case True
    with st1(5) st'(4) show ?thesis by simp
  next
    case False
    then have "seller_turn n sp bp j st = Inr st"
      using j Cons.prems(1) by (simp add: seller_turn_def rd_in inv_def shape_def)
    with st1(1) have "st1 = st" by simp
    moreover from ex False have "\<exists>x \<in> set js. seller_matches st ! nat x = - 1" by auto
    ultimately show ?thesis using st'(5) by simp
  qed
  from run st'(2,3) le lt show ?case by blast
qed

lemma loop_total:
  assumes vs: "valid_prefs n sp" and vb: "valid_prefs n bp" and n: "0 \<le> n"
    and iv: "inv n sp bp st" and pr: "proposals n sp bp st0 log st"
  shows "\<exists>fin log'. proposal_loop n sp bp st = Some (Inr fin) \<and> inv n sp bp fin \<and>
    bachelor_count fin = 0 \<and> proposals n sp bp st0 log' fin"
  using iv pr
proof (induction "nat (n * n - total_proposals n st)" arbitrary: st log rule: less_induct)
  case less
  from less.prems(1) have cnt: "count_ok n st" and co: "cursors_ok n st" by (simp_all add: inv_def)
  show ?case
  proof (cases "0 < bachelor_count st")
    case True
    with cnt have "card {s. 0 \<le> s \<and> s < n \<and> seller_matches st ! nat s = - 1} \<noteq> 0"
      by (simp add: count_ok_def)
    then have "{s. 0 \<le> s \<and> s < n \<and> seller_matches st ! nat s = - 1} \<noteq> {}"
      by (metis card.empty)
    then obtain x where x: "0 \<le> x" "x < n" "seller_matches st ! nat x = - 1" by blast
    then have ex: "\<exists>x \<in> set [0..n - 1]. seller_matches st ! nat x = - 1" by auto
    have rng: "\<forall>j \<in> set [0..n - 1]. 0 \<le> j \<and> j < n" by simp
    from sellers_loop[OF vs vb less.prems(1) rng less.prems(2)] ex
    obtain st' log' where st': "sellers_pass n sp bp st = Inr st'" "inv n sp bp st'"
      "proposals n sp bp st0 log' st'" "total_proposals n st < total_proposals n st'"
      unfolding sellers_pass_def by blast
    from st'(2) have "cursors_ok n st'" by (simp add: inv_def)
    from total_bound[OF this n] st'(4)
    have "nat (n * n - total_proposals n st') < nat (n * n - total_proposals n st)" by simp
    from less.hyps[OF this st'(2,3)]
    obtain fin log'' where fin: "proposal_loop n sp bp st' = Some (Inr fin)" "inv n sp bp fin"
      "bachelor_count fin = 0" "proposals n sp bp st0 log'' fin" by blast
    have "proposal_loop n sp bp st = Some (Inr fin)"
      by (subst proposal_loop.simps) (simp add: True st'(1) fin(1))
    with fin show ?thesis by blast
  next
    case False
    with cnt have "bachelor_count st = 0" by (simp add: count_ok_def)
    moreover from False have "proposal_loop n sp bp st = Some (Inr st)"
      by (subst proposal_loop.simps) simp
    ultimately show ?thesis using less.prems by blast
  qed
qed

lemma engine_total:
  assumes vs: "valid_prefs n sp" and vb: "valid_prefs n bp" and n: "0 \<le> n"
  shows "\<exists>fin log. engine n sp bp = Some (Inr fin) \<and> inv n sp bp fin \<and>
    bachelor_count fin = 0 \<and> proposals n sp bp (start n) log fin"
  using loop_total[OF vs vb n inv_start[OF n] no_proposal]
  by (simp add: engine_def init_state_start)

section \<open>The final state\<close>

lemma is_permI:
  assumes len: "length xs = nat n"
    and rng: "\<And>x. 0 \<le> x \<Longrightarrow> x < n \<Longrightarrow> 0 \<le> xs ! nat x \<and> xs ! nat x < n"
    and inj: "\<And>x y. 0 \<le> x \<Longrightarrow> x < n \<Longrightarrow> 0 \<le> y \<Longrightarrow> y < n \<Longrightarrow> xs ! nat x = xs ! nat y \<Longrightarrow> x = y"
  shows "is_perm n xs"
proof -
  have d: "distinct xs"
    unfolding distinct_conv_nth
  proof (intro allI impI)
    fix i j assume ij: "i < length xs" "j < length xs" "i \<noteq> j"
    show "xs ! i \<noteq> xs ! j"
    proof
      assume e: "xs ! i = xs ! j"
      from ij len have "int i < n" "int j < n" by linarith+
      from inj[of "int i" "int j", OF _ this(1) _ this(2)] e ij show False by simp
    qed
  qed
  have sub: "set xs \<subseteq> {0..<n}"
  proof
    fix v assume "v \<in> set xs"
    then obtain i where i: "i < length xs" "xs ! i = v" by (auto simp: in_set_conv_nth)
    with rng[of "int i"] len show "v \<in> {0..<n}" by simp
  qed
  have "card (set xs) = card {0..<n}" using distinct_card[OF d] len by simp
  with sub have "set xs = {0..<n}" by (simp add: card_subset_eq)
  with d show ?thesis by (simp add: is_perm_def)
qed

text \<open>What the invariant gives once no seller is unmatched.\<close>

lemma final_matched:
  assumes iv: "inv n sp bp fin" and bc: "bachelor_count fin = 0"
  shows "(\<forall>s. 0 \<le> s \<longrightarrow> s < n \<longrightarrow> 0 \<le> seller_matches fin ! nat s \<and> seller_matches fin ! nat s < n) \<and>
    (\<forall>b. 0 \<le> b \<longrightarrow> b < n \<longrightarrow> 0 \<le> buyer_matches fin ! nat b \<and> buyer_matches fin ! nat b < n)"
proof -
  from iv have mo: "matches_ok n fin" and cnt: "count_ok n fin" by (simp_all add: inv_def)
  define U where "U = {s. 0 \<le> s \<and> s < n \<and> seller_matches fin ! nat s = - 1}"
  have "finite U" unfolding U_def by (rule finite_subset[of _ "{0..<n}"]) auto
  moreover have "card U = 0" using cnt bc by (simp add: count_ok_def U_def)
  ultimately have "U = {}" by simp
  then have sm: "0 \<le> seller_matches fin ! nat s \<and> seller_matches fin ! nat s < n"
    if "0 \<le> s" "s < n" for s
    using matches_ok_seller[OF mo that] that by (auto simp: U_def)
  define f where "f = (\<lambda>s. seller_matches fin ! nat s)"
  have "f ` {0..<n} \<subseteq> {0..<n}" using sm by (auto simp: f_def)
  moreover have "inj_on f {0..<n}"
  proof (rule inj_onI)
    fix x y assume "x \<in> {0..<n}" "y \<in> {0..<n}" and e: "f x = f y"
    then have x: "0 \<le> x" "x < n" and y: "0 \<le> y" "y < n" by simp_all
    from sm[OF x] have b: "0 \<le> f x" "f x < n" by (simp_all add: f_def)
    from matches_ok_iff[OF mo x b] have "buyer_matches fin ! nat (f x) = x" by (simp add: f_def)
    moreover from matches_ok_iff[OF mo y b] e have "buyer_matches fin ! nat (f x) = y"
      by (simp add: f_def)
    ultimately show "x = y" by simp
  qed
  ultimately have surj: "f ` {0..<n} = {0..<n}" by (intro endo_inj_surj) simp_all
  have bm: "0 \<le> buyer_matches fin ! nat b \<and> buyer_matches fin ! nat b < n"
    if b: "0 \<le> b" "b < n" for b
  proof -
    from b surj have "b \<in> f ` {0..<n}" by simp
    then obtain s where s: "0 \<le> s" "s < n" "f s = b" by auto
    from matches_ok_iff[OF mo s(1,2) b] s(3) have "buyer_matches fin ! nat b = s" by (simp add: f_def)
    with s show ?thesis by simp
  qed
  from sm bm show ?thesis by blast
qed

lemma final_matching:
  assumes iv: "inv n sp bp fin" and bc: "bachelor_count fin = 0"
  shows "matching n (seller_matches fin) (buyer_matches fin) \<and>
    (\<forall>b \<in> {0..<n}. seller_matches fin ! nat (buyer_matches fin ! nat b) = b)"
proof -
  from iv have mo: "matches_ok n fin" and sh: "shape n fin" by (simp_all add: inv_def)
  from final_matched[OF iv bc] have
    sm: "\<And>s. 0 \<le> s \<Longrightarrow> s < n \<Longrightarrow> 0 \<le> seller_matches fin ! nat s \<and> seller_matches fin ! nat s < n" and
    bm: "\<And>b. 0 \<le> b \<Longrightarrow> b < n \<Longrightarrow> 0 \<le> buyer_matches fin ! nat b \<and> buyer_matches fin ! nat b < n"
    by blast+
  have inv1: "buyer_matches fin ! nat (seller_matches fin ! nat s) = s" if s: "0 \<le> s" "s < n" for s
  proof -
    from sm[OF s] have b: "0 \<le> seller_matches fin ! nat s" "seller_matches fin ! nat s < n" by simp_all
    from matches_ok_iff[OF mo s b] show ?thesis by blast
  qed
  have inv2: "seller_matches fin ! nat (buyer_matches fin ! nat b) = b" if b: "0 \<le> b" "b < n" for b
  proof -
    from bm[OF b] have s: "0 \<le> buyer_matches fin ! nat b" "buyer_matches fin ! nat b < n" by simp_all
    from matches_ok_iff[OF mo s b] show ?thesis by blast
  qed
  have p1: "is_perm n (seller_matches fin)"
  proof (rule is_permI)
    show "length (seller_matches fin) = nat n" using sh by (simp add: shape_def)
  next
    fix x assume "0 \<le> x" "x < n"
    then show "0 \<le> seller_matches fin ! nat x \<and> seller_matches fin ! nat x < n" by (rule sm)
  next
    fix x y assume x: "0 \<le> x" "x < n" and y: "0 \<le> y" "y < n"
      and e: "seller_matches fin ! nat x = seller_matches fin ! nat y"
    from inv1[OF x] inv1[OF y] e show "x = y" by metis
  qed
  have p2: "is_perm n (buyer_matches fin)"
  proof (rule is_permI)
    show "length (buyer_matches fin) = nat n" using sh by (simp add: shape_def)
  next
    fix x assume "0 \<le> x" "x < n"
    then show "0 \<le> buyer_matches fin ! nat x \<and> buyer_matches fin ! nat x < n" by (rule bm)
  next
    fix x y assume x: "0 \<le> x" "x < n" and y: "0 \<le> y" "y < n"
      and e: "buyer_matches fin ! nat x = buyer_matches fin ! nat y"
    from inv2[OF x] inv2[OF y] e show "x = y" by metis
  qed
  have i1: "\<forall>s \<in> {0..<n}. buyer_matches fin ! nat (seller_matches fin ! nat s) = s"
  proof
    fix s assume "s \<in> {0..<n}"
    then have "0 \<le> s" "s < n" by simp_all
    then show "buyer_matches fin ! nat (seller_matches fin ! nat s) = s" by (rule inv1)
  qed
  have i2: "\<forall>b \<in> {0..<n}. seller_matches fin ! nat (buyer_matches fin ! nat b) = b"
  proof
    fix b assume "b \<in> {0..<n}"
    then have "0 \<le> b" "b < n" by simp_all
    then show "seller_matches fin ! nat (buyer_matches fin ! nat b) = b" by (rule inv2)
  qed
  from p1 p2 i1 i2 show ?thesis unfolding matching_def by blast
qed

lemma final_stable:
  assumes vs: "valid_prefs n sp" and vb: "valid_prefs n bp"
    and iv: "inv n sp bp fin" and bc: "bachelor_count fin = 0"
  shows "stable n sp bp (seller_matches fin) (buyer_matches fin)"
  unfolding stable_def
proof (intro ballI notI)
  fix s b assume "s \<in> {0..<n}" "b \<in> {0..<n}"
    and blk: "blocking sp bp (seller_matches fin) (buyer_matches fin) s b"
  then have s: "0 \<le> s" "s < n" and b: "0 \<le> b" "b < n" by simp_all
  from iv have co: "cursors_ok n fin" and lc: "last_choice n sp fin"
    and rc: "rank_cached n bp fin" and ph: "proposed_held n sp bp fin"
    by (simp_all add: inv_def)
  from final_matched[OF iv bc] s b have
    sm: "0 \<le> seller_matches fin ! nat s" "seller_matches fin ! nat s < n" and
    bm: "0 \<le> buyer_matches fin ! nat b" "buyer_matches fin ! nat b < n" by simp_all
  define c where "c = seller_next_choices fin ! nat s"
  have srow: "is_perm n (sp ! nat s)" by (rule valid_prefs_row[OF vs s])
  have brow: "is_perm n (bp ! nat b)" by (rule valid_prefs_row[OF vb b])
  from lc s sm have c: "1 \<le> c" "sp ! nat s ! nat (c - 1) = seller_matches fin ! nat s"
    unfolding last_choice_def c_def by auto
  from co s have cn: "c \<le> n" by (simp add: cursors_ok_def c_def)
  have "rank_of (sp ! nat s) (sp ! nat s ! nat (c - 1)) = c - 1"
    by (rule rank_of_perm[OF srow]) (use c cn in simp_all)
  with c have r1: "rank_of (sp ! nat s) (seller_matches fin ! nat s) = c - 1" by simp
  define k where "k = rank_of (sp ! nat s) b"
  from rank_of_range[OF srow b] have k: "0 \<le> k" "k < n" "sp ! nat s ! nat k = b" by (simp_all add: k_def)
  from blk r1 have "k < c - 1" by (simp add: blocking_def prefers_def k_def)
  then have "k < seller_next_choices fin ! nat s" by (simp add: c_def)
  with ph s k obtain j where j: "buyer_final_prefs fin ! nat b \<le> j" "j < n" "bp ! nat b ! nat j = s"
    unfolding proposed_held_def by blast
  from rc b bm have f: "0 \<le> buyer_final_prefs fin ! nat b" "buyer_final_prefs fin ! nat b < n"
    "bp ! nat b ! nat (buyer_final_prefs fin ! nat b) = buyer_matches fin ! nat b"
    unfolding rank_cached_def by auto
  from j f have j0: "0 \<le> j" by simp
  have "rank_of (bp ! nat b) (bp ! nat b ! nat j) = j" by (rule rank_of_perm[OF brow j0 j(2)])
  with j have r2: "rank_of (bp ! nat b) s = j" by simp
  have "rank_of (bp ! nat b) (bp ! nat b ! nat (buyer_final_prefs fin ! nat b)) = buyer_final_prefs fin ! nat b"
    by (rule rank_of_perm[OF brow f(1,2)])
  with f have r3: "rank_of (bp ! nat b) (buyer_matches fin ! nat b) = buyer_final_prefs fin ! nat b" by simp
  from blk r2 r3 have "j < buyer_final_prefs fin ! nat b" by (simp add: blocking_def prefers_def)
  with j show False by simp
qed

lemma final_ranks:
  assumes vb: "valid_prefs n bp" and iv: "inv n sp bp fin" and bc: "bachelor_count fin = 0"
    and b: "0 \<le> b" "b < n"
  shows "0 \<le> buyer_final_prefs fin ! nat b \<and> buyer_final_prefs fin ! nat b < n \<and>
    bp ! nat b ! nat (buyer_final_prefs fin ! nat b) = buyer_matches fin ! nat b \<and>
    buyer_final_prefs fin ! nat b = rank_of (bp ! nat b) (buyer_matches fin ! nat b)"
proof -
  from iv have rc: "rank_cached n bp fin" by (simp add: inv_def)
  from final_matched[OF iv bc] b have "0 \<le> buyer_matches fin ! nat b" by simp
  with rc b have f: "0 \<le> buyer_final_prefs fin ! nat b" "buyer_final_prefs fin ! nat b < n"
    "bp ! nat b ! nat (buyer_final_prefs fin ! nat b) = buyer_matches fin ! nat b"
    unfolding rank_cached_def by auto
  have "rank_of (bp ! nat b) (bp ! nat b ! nat (buyer_final_prefs fin ! nat b)) = buyer_final_prefs fin ! nat b"
    by (rule rank_of_perm[OF valid_prefs_row[OF vb b] f(1,2)])
  with f show ?thesis by simp
qed

section \<open>The claims about the matching engine\<close>

text \<open>
  Claim C1 (stability). For every \<open>n \<ge> 0\<close> and every pair of preference tables whose rows
  are permutations of \<open>[0, n)\<close>, the proposal loop ends, the two arrays it leaves are a
  matching (each a permutation of \<open>[0, n)\<close>, \<open>buyer_matches\<close> the inverse of
  \<open>seller_matches\<close>), and this matching is stable: no seller \<open>s\<close> and buyer \<open>b\<close>,
  matched to other partners, rank each other before their partners.
\<close>

theorem engine_stable:
  assumes "0 \<le> n" "valid_prefs n sp" "valid_prefs n bp"
  shows "\<exists>fin. engine n sp bp = Some (Inr fin) \<and>
    matching n (seller_matches fin) (buyer_matches fin) \<and>
    stable n sp bp (seller_matches fin) (buyer_matches fin)"
proof -
  from engine_total[OF assms(2,3,1)] obtain fin where
    fin: "engine n sp bp = Some (Inr fin)" "inv n sp bp fin" "bachelor_count fin = 0" by blast
  from final_matching[OF fin(2,3)]
  have "matching n (seller_matches fin) (buyer_matches fin)" by blast
  with final_stable[OF assms(2,3) fin(2,3)] fin(1) show ?thesis by blast
qed

text \<open>
  In the witness all sellers list buyer 0 first: seller 0 is accepted by buyer 0 and
  then displaced by seller 1, which is displaced by seller 2; the same happens at
  buyer 1, and seller 0 ends with its last choice.
\<close>

theorem engine_stable_witness:
  "(0::int) \<le> 3 \<and> valid_prefs 3 [[0,1,2],[0,1,2],[0,2,1]] \<and> valid_prefs 3 [[2,1,0],[1,0,2],[0,1,2]] \<and>
   (\<exists>fin. engine 3 [[0,1,2],[0,1,2],[0,2,1]] [[2,1,0],[1,0,2],[0,1,2]] = Some (Inr fin) \<and>
      seller_matches fin = [2, 1, 0] \<and> buyer_matches fin = [2, 1, 0] \<and>
      seller_next_choices fin = [3, 2, 1] \<and>
      matching 3 (seller_matches fin) (buyer_matches fin) \<and>
      stable 3 [[0,1,2],[0,1,2],[0,2,1]] [[2,1,0],[1,0,2],[0,1,2]] (seller_matches fin) (buyer_matches fin))"
proof -
  let ?sp = "[[0,1,2],[0,1,2],[0,2,1::int]]" and ?bp = "[[2,1,0],[1,0,2],[0,1,2::int]]"
  have h0: "(0::int) \<le> 3" by simp
  have h1: "valid_prefs 3 ?sp" by code_simp
  have h2: "valid_prefs 3 ?bp" by code_simp
  have e: "engine 3 ?sp ?bp =
      Some (Inr \<lparr>seller_next_choices = [3, 2, 1], buyer_final_prefs = [0, 0, 0],
          seller_matches = [2, 1, 0], buyer_matches = [2, 1, 0],
          bachelor_count = 0, curr_seller_rank = 0\<rparr>)" by code_simp
  from engine_stable[OF h0 h1 h2] obtain fin where
    r: "engine 3 ?sp ?bp = Some (Inr fin)"
    "matching 3 (seller_matches fin) (buyer_matches fin)"
    "stable 3 ?sp ?bp (seller_matches fin) (buyer_matches fin)" by blast
  from r(1) e have "fin = \<lparr>seller_next_choices = [3, 2, 1], buyer_final_prefs = [0, 0, 0],
          seller_matches = [2, 1, 0], buyer_matches = [2, 1, 0],
          bachelor_count = 0, curr_seller_rank = 0\<rparr>" by simp
  then have "seller_matches fin = [2, 1, 0]" "buyer_matches fin = [2, 1, 0]"
    "seller_next_choices fin = [3, 2, 1]" by simp_all
  with r h0 h1 h2 show ?thesis by blast
qed

text \<open>
  Claim C2 (totality). For every \<open>n \<ge> 0\<close> and valid preference tables, the loop ends with
  \<open>seller_matches\<close> and \<open>buyer_matches\<close> a perfect bijection: each is a permutation of
  \<open>[0, n)\<close>, so every identifier occurs exactly once and no entry is the sentinel \<open>-1\<close>,
  and each is the inverse of the other. For \<open>n = 0\<close> the loop guard is false on entry
  and the result is the initial state with empty arrays.
\<close>

theorem engine_perfect_matching:
  assumes "0 \<le> n" "valid_prefs n sp" "valid_prefs n bp"
  shows "\<exists>fin. engine n sp bp = Some (Inr fin) \<and>
    is_perm n (seller_matches fin) \<and> is_perm n (buyer_matches fin) \<and>
    (\<forall>s \<in> {0..<n}. buyer_matches fin ! nat (seller_matches fin ! nat s) = s) \<and>
    (\<forall>b \<in> {0..<n}. seller_matches fin ! nat (buyer_matches fin ! nat b) = b) \<and>
    - 1 \<notin> set (seller_matches fin) \<and> - 1 \<notin> set (buyer_matches fin) \<and>
    (n = 0 \<longrightarrow> fin = start 0 \<and> \<not> 0 < bachelor_count (start 0) \<and>
       seller_matches fin = [] \<and> buyer_matches fin = [])"
proof -
  from engine_total[OF assms(2,3,1)] obtain fin where
    fin: "engine n sp bp = Some (Inr fin)" "inv n sp bp fin" "bachelor_count fin = 0" by blast
  from final_matching[OF fin(2,3)] have m: "is_perm n (seller_matches fin)" "is_perm n (buyer_matches fin)"
    "\<forall>s \<in> {0..<n}. buyer_matches fin ! nat (seller_matches fin ! nat s) = s"
    "\<forall>b \<in> {0..<n}. seller_matches fin ! nat (buyer_matches fin ! nat b) = b"
    by (simp_all add: matching_def)
  from m(1,2) have s: "- 1 \<notin> set (seller_matches fin)" "- 1 \<notin> set (buyer_matches fin)"
    by (simp_all add: is_perm_def)
  have z: "fin = start 0 \<and> \<not> 0 < bachelor_count (start 0) \<and>
       seller_matches fin = [] \<and> buyer_matches fin = []" if "n = 0"
  proof -
    have "proposal_loop 0 sp bp (start 0) = Some (Inr (start 0))"
      by (subst proposal_loop.simps) (simp add: start_def)
    with fin(1) that have "fin = start 0" by (simp add: engine_def init_state_start)
    then show ?thesis by (simp add: start_def)
  qed
  from fin(1) m s z show ?thesis by blast
qed

theorem engine_perfect_matching_witness:
  "(0::int) \<le> 3 \<and> valid_prefs 3 [[0,1,2],[0,1,2],[0,1,2]] \<and> valid_prefs 3 [[2,1,0],[2,1,0],[2,1,0]] \<and>
   (\<exists>fin. engine 3 [[0,1,2],[0,1,2],[0,1,2]] [[2,1,0],[2,1,0],[2,1,0]] = Some (Inr fin) \<and>
      seller_matches fin = [2, 1, 0] \<and> buyer_matches fin = [2, 1, 0] \<and>
      is_perm 3 (seller_matches fin) \<and> is_perm 3 (buyer_matches fin)) \<and>
   valid_prefs 0 [] \<and>
   (\<exists>fin. engine 0 [] [] = Some (Inr fin) \<and> fin = start 0 \<and> seller_matches fin = [])"
proof -
  have h0: "(0::int) \<le> 3" by simp
  have h1: "valid_prefs 3 [[0,1,2],[0,1,2],[0,1,2]]" by code_simp
  have h2: "valid_prefs 3 [[2,1,0],[2,1,0],[2,1,0]]" by code_simp
  have e: "engine 3 [[0,1,2],[0,1,2],[0,1,2]] [[2,1,0],[2,1,0],[2,1,0]] =
      Some (Inr \<lparr>seller_next_choices = [3, 2, 1], buyer_final_prefs = [0, 1, 2],
          seller_matches = [2, 1, 0], buyer_matches = [2, 1, 0],
          bachelor_count = 0, curr_seller_rank = 2\<rparr>)" by code_simp
  from engine_perfect_matching[OF h0 h1 h2] e
  have a: "\<exists>fin. engine 3 [[0,1,2],[0,1,2],[0,1,2]] [[2,1,0],[2,1,0],[2,1,0]] = Some (Inr fin) \<and>
      seller_matches fin = [2, 1, 0] \<and> buyer_matches fin = [2, 1, 0] \<and>
      is_perm 3 (seller_matches fin) \<and> is_perm 3 (buyer_matches fin)" by auto
  have z0: "(0::int) \<le> 0" by simp
  have z1: "valid_prefs 0 []" by (simp add: valid_prefs_def)
  from engine_perfect_matching[OF z0 z1 z1]
  have b: "\<exists>fin. engine 0 [] [] = Some (Inr fin) \<and> fin = start 0 \<and> seller_matches fin = []"
    by blast
  from a b h0 h1 h2 z1 show ?thesis by blast
qed

text \<open>
  Claim C4 (acceptance rank). For every \<open>n \<ge> 0\<close> and valid preference tables, when the
  loop has ended, \<open>buyer_final_prefs[b]\<close> is for every buyer \<open>b\<close> the position in
  \<open>buyer_prefs[b]\<close> of the seller \<open>buyer_matches[b]\<close> that \<open>b\<close> is matched to.
\<close>

theorem engine_acceptance_rank:
  assumes "0 \<le> n" "valid_prefs n sp" "valid_prefs n bp"
  shows "\<exists>fin. engine n sp bp = Some (Inr fin) \<and>
    (\<forall>b \<in> {0..<n}.
       0 \<le> buyer_final_prefs fin ! nat b \<and> buyer_final_prefs fin ! nat b < n \<and>
       bp ! nat b ! nat (buyer_final_prefs fin ! nat b) = buyer_matches fin ! nat b \<and>
       buyer_final_prefs fin ! nat b = rank_of (bp ! nat b) (buyer_matches fin ! nat b))"
proof -
  from engine_total[OF assms(2,3,1)] obtain fin where
    fin: "engine n sp bp = Some (Inr fin)" "inv n sp bp fin" "bachelor_count fin = 0" by blast
  have "\<forall>b \<in> {0..<n}.
       0 \<le> buyer_final_prefs fin ! nat b \<and> buyer_final_prefs fin ! nat b < n \<and>
       bp ! nat b ! nat (buyer_final_prefs fin ! nat b) = buyer_matches fin ! nat b \<and>
       buyer_final_prefs fin ! nat b = rank_of (bp ! nat b) (buyer_matches fin ! nat b)"
  proof
    fix b assume "b \<in> {0..<n}"
    then have b: "0 \<le> b" "b < n" by simp_all
    show "0 \<le> buyer_final_prefs fin ! nat b \<and> buyer_final_prefs fin ! nat b < n \<and>
       bp ! nat b ! nat (buyer_final_prefs fin ! nat b) = buyer_matches fin ! nat b \<and>
       buyer_final_prefs fin ! nat b = rank_of (bp ! nat b) (buyer_matches fin ! nat b)"
      by (rule final_ranks[OF assms(3) fin(2,3) b])
  qed
  with fin(1) show ?thesis by blast
qed

theorem engine_acceptance_rank_witness:
  "(0::int) \<le> 3 \<and> valid_prefs 3 [[0,1,2],[0,1,2],[0,1,2]] \<and> valid_prefs 3 [[2,1,0],[2,0,1],[1,2,0]] \<and>
   (\<exists>fin. engine 3 [[0,1,2],[0,1,2],[0,1,2]] [[2,1,0],[2,0,1],[1,2,0]] = Some (Inr fin) \<and>
      (\<forall>b \<in> {0..<3}. buyer_final_prefs fin ! nat b =
         rank_of ([[2,1,0],[2,0,1],[1,2,0]] ! nat b) (buyer_matches fin ! nat b)))"
proof -
  have h0: "(0::int) \<le> 3" by simp
  have h1: "valid_prefs 3 [[0,1,2],[0,1,2],[0,1,2]]" by code_simp
  have h2: "valid_prefs 3 [[2,1,0],[2,0,1],[1,2,0]]" by code_simp
  from engine_acceptance_rank[OF h0 h1 h2] h0 h1 h2 show ?thesis by blast
qed

section \<open>Sequences of proposals\<close>

lemma proposals_trans:
  assumes "proposals n sp bp st0 l1 st1" "proposals n sp bp st1 l2 st2"
  shows "proposals n sp bp st0 (l1 @ l2) st2"
  using assms(2)
proof (induction rule: proposals.induct)
  case no_proposal
  with assms(1) show ?case by simp
next
  case (one_more log sta s stb)
  from proposals.one_more[OF one_more.IH one_more.hyps(2,3,4)] show ?case by simp
qed

lemma proposals_inv:
  assumes vs: "valid_prefs n sp" and vb: "valid_prefs n bp" and iv: "inv n sp bp st0"
    and pr: "proposals n sp bp st0 log st"
  shows "inv n sp bp st \<and>
    (\<forall>x. 0 \<le> x \<longrightarrow> x < n \<longrightarrow> seller_next_choices st ! nat x =
       seller_next_choices st0 ! nat x + int (length (filter (\<lambda>p. fst p = x) log)))"
  using pr
proof (induction rule: proposals.induct)
  case no_proposal
  with iv show ?case by simp
next
  case (one_more log st1 s st2)
  from one_more.IH have iv1: "inv n sp bp st1" and c1: "\<And>x. 0 \<le> x \<Longrightarrow> x < n \<Longrightarrow>
    seller_next_choices st1 ! nat x =
       seller_next_choices st0 ! nat x + int (length (filter (\<lambda>p. fst p = x) log))" by blast+
  from one_more.hyps(2) have s: "0 \<le> s" "s < n" by simp_all
  from inv_step[OF vs vb iv1 s one_more.hyps(3) unmatched_cursor[OF vs iv1 s one_more.hyps(3)]]
    one_more.hyps(4)
  have iv2: "inv n sp bp st2" and c2: "\<And>x. 0 \<le> x \<Longrightarrow> x < n \<Longrightarrow>
    seller_next_choices st2 ! nat x =
       (if x = s then seller_next_choices st1 ! nat s + 1 else seller_next_choices st1 ! nat x)"
    by auto
  have "seller_next_choices st2 ! nat x = seller_next_choices st0 ! nat x +
      int (length (filter (\<lambda>p. fst p = x) (log @ [(s, next_buyer sp s st1)])))"
    if x: "0 \<le> x" "x < n" for x
    using c2[OF x] c1[OF x] c1[OF s] by simp
  with iv2 show ?case by blast
qed

lemma proposals_log:
  assumes vs: "valid_prefs n sp" and vb: "valid_prefs n bp" and iv: "inv n sp bp st0"
    and l0: "log_ok n sp st0 log0" and pr: "proposals n sp bp st0 log st"
  shows "log_ok n sp st (log0 @ log)"
  using pr
proof (induction rule: proposals.induct)
  case no_proposal
  with l0 show ?case by simp
next
  case (one_more log st1 s st2)
  from proposals_inv[OF vs vb iv one_more.hyps(1)] have iv1: "inv n sp bp st1" by blast
  from one_more.hyps(2) have s: "0 \<le> s" "s < n" by simp_all
  define c where "c = seller_next_choices st1 ! nat s"
  have cn: "c < n" unfolding c_def by (rule unmatched_cursor[OF vs iv1 s one_more.hyps(3)])
  from iv1 s have c0: "0 \<le> c" by (simp add: inv_def cursors_ok_def c_def)
  from inv_step[OF vs vb iv1 s one_more.hyps(3) cn[unfolded c_def]] one_more.hyps(4)
  have c2: "\<And>x. 0 \<le> x \<Longrightarrow> x < n \<Longrightarrow> seller_next_choices st2 ! nat x =
       (if x = s then c + 1 else seller_next_choices st1 ! nat x)"
    by (auto simp: c_def)
  from one_more.IH have d: "distinct (log0 @ log)" and
    m: "\<And>x b. (x, b) \<in> set (log0 @ log) \<Longrightarrow> 0 \<le> x \<and> x < n \<and>
        (\<exists>k. 0 \<le> k \<and> k < seller_next_choices st1 ! nat x \<and> b = sp ! nat x ! nat k)"
    unfolding log_ok_def by blast+
  have nb: "next_buyer sp s st1 = sp ! nat s ! nat c" by (simp add: next_buyer_def c_def)
  have fresh: "(s, sp ! nat s ! nat c) \<notin> set (log0 @ log)"
  proof
    assume "(s, sp ! nat s ! nat c) \<in> set (log0 @ log)"
    from m[OF this] obtain k where k: "0 \<le> k" "k < c" "sp ! nat s ! nat c = sp ! nat s ! nat k"
      by (auto simp: c_def)
    from is_perm_inj[OF valid_prefs_row[OF vs s] c0 cn k(1) _ k(3)] k(2) cn show False by simp
  qed
  have m2: "0 \<le> x \<and> x < n \<and>
        (\<exists>k. 0 \<le> k \<and> k < seller_next_choices st2 ! nat x \<and> b = sp ! nat x ! nat k)"
    if "(x, b) \<in> set ((log0 @ log) @ [(s, sp ! nat s ! nat c)])" for x b
  proof (cases "(x, b) \<in> set (log0 @ log)")
    case True
    from m[OF True] obtain k where k: "0 \<le> x" "x < n" "0 \<le> k"
      "k < seller_next_choices st1 ! nat x" "b = sp ! nat x ! nat k" by blast
    from c2[OF k(1,2)] k(4) have "k < seller_next_choices st2 ! nat x" by (auto simp: c_def)
    with k show ?thesis by blast
  next
    case False
    with that have e: "x = s" "b = sp ! nat s ! nat c" by auto
    from c2[OF s] have "c < seller_next_choices st2 ! nat s" by simp
    with e s c0 show ?thesis by blast
  qed
  from d fresh have "distinct ((log0 @ log) @ [(s, sp ! nat s ! nat c)])" by simp
  with m2 have "log_ok n sp st2 ((log0 @ log) @ [(s, sp ! nat s ! nat c)])"
    unfolding log_ok_def by blast
  then show ?case by (simp add: nb)
qed

lemma log_bounds:
  assumes vs: "valid_prefs n sp" and n: "0 \<le> n" and co: "cursors_ok n st"
    and lk: "log_ok n sp st log"
  shows "int (length log) \<le> n * n"
proof -
  from lk have d: "distinct log" and
    m: "\<And>x b. (x, b) \<in> set log \<Longrightarrow> 0 \<le> x \<and> x < n \<and>
        (\<exists>k. 0 \<le> k \<and> k < seller_next_choices st ! nat x \<and> b = sp ! nat x ! nat k)"
    unfolding log_ok_def by blast+
  have sub: "set log \<subseteq> {0..<n} \<times> {0..<n}"
  proof
    fix p assume p: "p \<in> set log"
    obtain x b where xb: "p = (x, b)" by (cases p)
    from m[OF p[unfolded xb]] obtain k where k: "0 \<le> x" "x < n" "0 \<le> k"
      "k < seller_next_choices st ! nat x" "b = sp ! nat x ! nat k" by blast
    from co k have "k < n" by (auto simp: cursors_ok_def dest: spec[of _ x])
    from is_perm_nth[OF valid_prefs_row[OF vs k(1,2)] k(3) this] k(5)
    have "0 \<le> b" "b < n" by simp_all
    with k xb show "p \<in> {0..<n} \<times> {0..<n}" by simp
  qed
  have "length log = card (set log)" using distinct_card[OF d] by simp
  also have "\<dots> \<le> card ({0..<n} \<times> {0..<n})" by (rule card_mono[OF _ sub]) simp
  also have "\<dots> = nat n * nat n" by (simp add: card_cartesian_product)
  finally have "length log \<le> nat n * nat n" .
  then have "int (length log) \<le> int (nat n * nat n)" by (simp only: of_nat_le_iff)
  also have "int (nat n * nat n) = n * n" using n by simp
  finally show ?thesis .
qed

lemma start_cursor: "0 \<le> x \<Longrightarrow> x < n \<Longrightarrow> seller_next_choices (start n) ! nat x = 0"
  by (simp add: start_def)

lemma log_ok_start: "log_ok n sp (start n) []"
  by (simp add: log_ok_def)

lemma run_facts:
  assumes n: "0 \<le> n" and vs: "valid_prefs n sp" and vb: "valid_prefs n bp"
    and pr: "proposals n sp bp (start n) log st"
  shows "inv n sp bp st \<and> log_ok n sp st log \<and> int (length log) \<le> n * n \<and>
    (\<forall>s. 0 \<le> s \<longrightarrow> s < n \<longrightarrow>
       seller_next_choices st ! nat s = int (length (filter (\<lambda>p. fst p = s) log))) \<and>
    (\<forall>s. int (length (filter (\<lambda>p. fst p = s) log)) \<le> n)"
proof -
  note i0 = inv_start[OF n, of sp bp]
  from proposals_inv[OF vs vb i0 pr] have iv: "inv n sp bp st" and
    c: "\<And>x. 0 \<le> x \<Longrightarrow> x < n \<Longrightarrow> seller_next_choices st ! nat x =
       seller_next_choices (start n) ! nat x + int (length (filter (\<lambda>p. fst p = x) log))"
    by blast+
  from proposals_log[OF vs vb i0 log_ok_start pr] have lk: "log_ok n sp st log" by simp
  from iv have co: "cursors_ok n st" by (simp add: inv_def)
  have c': "seller_next_choices st ! nat s = int (length (filter (\<lambda>p. fst p = s) log))"
    if "0 \<le> s" "s < n" for s
    using c[OF that] start_cursor[OF that] by simp
  have b: "int (length (filter (\<lambda>p. fst p = s) log)) \<le> n" for s
  proof (cases "0 \<le> s \<and> s < n")
    case True
    with co have "seller_next_choices st ! nat s \<le> n" unfolding cursors_ok_def by blast
    with c'[of s] True show ?thesis by simp
  next
    case False
    have "filter (\<lambda>p. fst p = s) log = []"
    proof (rule ccontr)
      assume "filter (\<lambda>p. fst p = s) log \<noteq> []"
      then obtain p where p: "p \<in> set log" "fst p = s"
        by (metis (mono_tags, lifting) filter_False)
      from p have "(s, snd p) \<in> set log" by (metis prod.collapse)
      then obtain b where "(s, b) \<in> set log" ..
      with lk have "0 \<le> s \<and> s < n" unfolding log_ok_def by blast
      with False show False by simp
    qed
    with n show ?thesis by simp
  qed
  from iv lk log_bounds[OF vs n co lk] c' b show ?thesis by blast
qed

text \<open>
  Claim C9 (termination). For every \<open>n \<ge> 0\<close> and valid preference tables the proposal
  loop ends, so the engine is total on valid input. Its run is a sequence of proposals
  from the initial state, and every such sequence has at most \<open>n\<close> proposals by each
  seller and at most \<open>n\<^sup>2\<close> proposals in all.
\<close>

theorem engine_terminates:
  assumes "0 \<le> n" "valid_prefs n sp" "valid_prefs n bp"
  shows "(\<exists>fin log. engine n sp bp = Some (Inr fin) \<and> proposals n sp bp (start n) log fin) \<and>
    (\<forall>log st. proposals n sp bp (start n) log st \<longrightarrow>
       (\<forall>s. int (length (filter (\<lambda>p. fst p = s) log)) \<le> n) \<and> int (length log) \<le> n * n)"
proof -
  from engine_total[OF assms(2,3,1)]
  have "\<exists>fin log. engine n sp bp = Some (Inr fin) \<and> proposals n sp bp (start n) log fin" by blast
  moreover have "(\<forall>s. int (length (filter (\<lambda>p. fst p = s) log)) \<le> n) \<and> int (length log) \<le> n * n"
    if "proposals n sp bp (start n) log st" for log st
    using run_facts[OF assms that] by blast
  ultimately show ?thesis by blast
qed

theorem engine_terminates_witness:
  "(0::int) \<le> 3 \<and> valid_prefs 3 [[0,1,2],[0,1,2],[0,1,2]] \<and> valid_prefs 3 [[2,1,0],[2,1,0],[2,1,0]] \<and>
   (\<exists>fin log. engine 3 [[0,1,2],[0,1,2],[0,1,2]] [[2,1,0],[2,1,0],[2,1,0]] = Some (Inr fin) \<and>
      seller_next_choices fin = [3, 2, 1] \<and>
      proposals 3 [[0,1,2],[0,1,2],[0,1,2]] [[2,1,0],[2,1,0],[2,1,0]] (start 3) log fin \<and>
      int (length log) \<le> 3 * 3)"
proof -
  have h0: "(0::int) \<le> 3" by simp
  have h1: "valid_prefs 3 [[0,1,2],[0,1,2],[0,1,2]]" by code_simp
  have h2: "valid_prefs 3 [[2,1,0],[2,1,0],[2,1,0]]" by code_simp
  have e: "engine 3 [[0,1,2],[0,1,2],[0,1,2]] [[2,1,0],[2,1,0],[2,1,0]] =
      Some (Inr \<lparr>seller_next_choices = [3, 2, 1], buyer_final_prefs = [0, 1, 2],
          seller_matches = [2, 1, 0], buyer_matches = [2, 1, 0],
          bachelor_count = 0, curr_seller_rank = 2\<rparr>)" by code_simp
  from engine_terminates[OF h0 h1 h2] obtain fin log where
    r: "engine 3 [[0,1,2],[0,1,2],[0,1,2]] [[2,1,0],[2,1,0],[2,1,0]] = Some (Inr fin)"
    "proposals 3 [[0,1,2],[0,1,2],[0,1,2]] [[2,1,0],[2,1,0],[2,1,0]] (start 3) log fin"
    and b: "\<forall>log st. proposals 3 [[0,1,2],[0,1,2],[0,1,2]] [[2,1,0],[2,1,0],[2,1,0]] (start 3) log st \<longrightarrow>
       (\<forall>s. int (length (filter (\<lambda>p. fst p = s) log)) \<le> 3) \<and> int (length log) \<le> 3 * 3"
    by blast
  from b r(2) have "int (length log) \<le> 3 * 3" by blast
  moreover from r(1) e have "fin = \<lparr>seller_next_choices = [3, 2, 1], buyer_final_prefs = [0, 1, 2],
          seller_matches = [2, 1, 0], buyer_matches = [2, 1, 0],
          bachelor_count = 0, curr_seller_rank = 2\<rparr>" by simp
  then have "seller_next_choices fin = [3, 2, 1]" by simp
  ultimately show ?thesis using h0 h1 h2 r by blast
qed

text \<open>
  Claim C8 (proposal cursor). On valid input every cursor \<open>seller_next_choices[s]\<close> is 0
  in the initial state; along any sequence of proposals from there it never decreases
  and never exceeds \<open>n\<close>, it counts the proposals that \<open>s\<close> has made, and no pair of a
  seller and a buyer occurs twice among the proposals. The run of the engine is such a
  sequence.
\<close>

theorem cursor_monotone:
  assumes "0 \<le> n" "valid_prefs n sp" "valid_prefs n bp"
  shows "(\<forall>s \<in> {0..<n}. seller_next_choices (start n) ! nat s = 0) \<and>
    (\<forall>log1 st1 log2 st2 s. proposals n sp bp (start n) log1 st1 \<longrightarrow>
       proposals n sp bp st1 log2 st2 \<longrightarrow> s \<in> {0..<n} \<longrightarrow>
       0 \<le> seller_next_choices st1 ! nat s \<and>
       seller_next_choices st1 ! nat s \<le> seller_next_choices st2 ! nat s \<and>
       seller_next_choices st2 ! nat s \<le> n \<and>
       seller_next_choices st2 ! nat s = int (length (filter (\<lambda>p. fst p = s) (log1 @ log2))) \<and>
       distinct (log1 @ log2)) \<and>
    (\<exists>fin log. engine n sp bp = Some (Inr fin) \<and> proposals n sp bp (start n) log fin)"
proof -
  have a: "\<forall>s \<in> {0..<n}. seller_next_choices (start n) ! nat s = 0"
    by (simp add: start_cursor)
  have b: "0 \<le> seller_next_choices st1 ! nat s \<and>
       seller_next_choices st1 ! nat s \<le> seller_next_choices st2 ! nat s \<and>
       seller_next_choices st2 ! nat s \<le> n \<and>
       seller_next_choices st2 ! nat s = int (length (filter (\<lambda>p. fst p = s) (log1 @ log2))) \<and>
       distinct (log1 @ log2)"
    if p1: "proposals n sp bp (start n) log1 st1" and p2: "proposals n sp bp st1 log2 st2"
      and s: "s \<in> {0..<n}" for log1 st1 log2 st2 s
  proof -
    from s have s': "0 \<le> s" "s < n" by simp_all
    note p12 = proposals_trans[OF p1 p2]
    from run_facts[OF assms p1] s' have
      c1: "seller_next_choices st1 ! nat s = int (length (filter (\<lambda>p. fst p = s) log1))"
      by blast
    from run_facts[OF assms p12] s' have
      c2: "seller_next_choices st2 ! nat s = int (length (filter (\<lambda>p. fst p = s) (log1 @ log2)))"
      and le: "int (length (filter (\<lambda>p. fst p = s) (log1 @ log2))) \<le> n"
      and lk: "log_ok n sp st2 (log1 @ log2)"
      by blast+
    from lk have "distinct (log1 @ log2)" by (simp add: log_ok_def)
    with c1 c2 le show ?thesis by simp
  qed
  from engine_total[OF assms(2,3,1)]
  have c: "\<exists>fin log. engine n sp bp = Some (Inr fin) \<and> proposals n sp bp (start n) log fin" by blast
  from a b c show ?thesis by blast
qed

theorem cursor_monotone_witness:
  "(0::int) \<le> 3 \<and> valid_prefs 3 [[0,1,2],[0,1,2],[0,1,2]] \<and> valid_prefs 3 [[2,1,0],[2,1,0],[2,1,0]] \<and>
   (\<exists>fin log. engine 3 [[0,1,2],[0,1,2],[0,1,2]] [[2,1,0],[2,1,0],[2,1,0]] = Some (Inr fin) \<and>
      proposals 3 [[0,1,2],[0,1,2],[0,1,2]] [[2,1,0],[2,1,0],[2,1,0]] (start 3) log fin \<and>
      seller_next_choices (start 3) ! nat 0 \<le> seller_next_choices fin ! nat 0 \<and>
      seller_next_choices fin ! nat 0 = 3 \<and>
      length (filter (\<lambda>p. fst p = 0) log) = 3 \<and> distinct log)"
proof -
  let ?sp = "[[0,1,2],[0,1,2],[0,1,2::int]]" and ?bp = "[[2,1,0],[2,1,0],[2,1,0::int]]"
  have h0: "(0::int) \<le> 3" by simp
  have h1: "valid_prefs 3 ?sp" by code_simp
  have h2: "valid_prefs 3 ?bp" by code_simp
  have e: "engine 3 ?sp ?bp =
      Some (Inr \<lparr>seller_next_choices = [3, 2, 1], buyer_final_prefs = [0, 1, 2],
          seller_matches = [2, 1, 0], buyer_matches = [2, 1, 0],
          bachelor_count = 0, curr_seller_rank = 2\<rparr>)" by code_simp
  from cursor_monotone[OF h0 h1 h2] obtain fin log where
    r: "engine 3 ?sp ?bp = Some (Inr fin)" "proposals 3 ?sp ?bp (start 3) log fin"
    and b: "\<And>log1 st1 log2 st2 s. proposals 3 ?sp ?bp (start 3) log1 st1 \<Longrightarrow>
       proposals 3 ?sp ?bp st1 log2 st2 \<Longrightarrow> s \<in> {0..<3} \<Longrightarrow>
       0 \<le> seller_next_choices st1 ! nat s \<and>
       seller_next_choices st1 ! nat s \<le> seller_next_choices st2 ! nat s \<and>
       seller_next_choices st2 ! nat s \<le> 3 \<and>
       seller_next_choices st2 ! nat s = int (length (filter (\<lambda>p. fst p = s) (log1 @ log2))) \<and>
       distinct (log1 @ log2)"
    by blast
  have "(0::int) \<in> {0..<3}" by simp
  from b[OF no_proposal r(2) this] have
    m: "seller_next_choices (start 3) ! nat 0 \<le> seller_next_choices fin ! nat 0"
    "seller_next_choices fin ! nat 0 = int (length (filter (\<lambda>p. fst p = 0) log))"
    "distinct log" by simp_all
  from r(1) e have "fin = \<lparr>seller_next_choices = [3, 2, 1], buyer_final_prefs = [0, 1, 2],
          seller_matches = [2, 1, 0], buyer_matches = [2, 1, 0],
          bachelor_count = 0, curr_seller_rank = 2\<rparr>" by simp
  then have c: "seller_next_choices fin ! nat 0 = 3" by simp
  with m(2) have "length (filter (\<lambda>p. fst p = 0) log) = 3" by simp
  with m c h0 h1 h2 r show ?thesis by blast
qed

section \<open>Seller-optimality\<close>

lemma prefers_later:
  assumes row: "is_perm n row" and p: "0 \<le> p" "p < n" and y: "0 \<le> y" "y < n"
    and ne: "\<And>k. 0 \<le> k \<Longrightarrow> k \<le> p \<Longrightarrow> row ! nat k \<noteq> y"
  shows "prefers row (row ! nat p) y"
proof -
  have rp: "rank_of row (row ! nat p) = p" by (rule rank_of_perm[OF row p])
  from rank_of_range[OF row y] have q: "0 \<le> rank_of row y" "row ! nat (rank_of row y) = y"
    by simp_all
  have "\<not> rank_of row y \<le> p"
  proof
    assume "rank_of row y \<le> p"
    from ne[OF q(1) this] q(2) show False by simp
  qed
  with rp show ?thesis by (simp add: prefers_def)
qed

lemma matching_facts:
  assumes "matching n ms mb" "0 \<le> x" "x < n"
  shows "0 \<le> ms ! nat x \<and> ms ! nat x < n \<and> mb ! nat (ms ! nat x) = x"
  using assms is_perm_nth[of n ms x] by (simp add: matching_def)

lemma matching_inj:
  assumes "matching n ms mb" "0 \<le> x" "x < n" "0 \<le> y" "y < n" "ms ! nat x = ms ! nat y"
  shows "x = y"
  using assms is_perm_inj[of n ms x y] by (simp add: matching_def)

lemma stable_no_block:
  assumes "stable n sp bp ms mb" "0 \<le> x" "x < n" "0 \<le> y" "y < n"
  shows "\<not> blocking sp bp ms mb x y"
  using assms by (simp add: stable_def)

lemma no_stable_rejected_start: "no_stable_rejected n sp bp (start n)"
  by (simp add: no_stable_rejected_def start_def)

lemma opt_step:
  assumes vs: "valid_prefs n sp" and vb: "valid_prefs n bp" and iv: "inv n sp bp st"
    and ns: "no_stable_rejected n sp bp st"
    and s: "0 \<le> s" "s < n" and un: "seller_matches st ! nat s = - 1"
    and st': "propose n sp bp s st = Inr st'"
  shows "no_stable_rejected n sp bp st'"
proof -
  define c where "c = seller_next_choices st ! nat s"
  define b where "b = sp ! nat s ! nat c"
  define r where "r = rank_of (bp ! nat b) s"
  define t where "t = buyer_matches st ! nat b"
  from iv have sh: "shape n st" and co: "cursors_ok n st" and mo: "matches_ok n st"
    and lc: "last_choice n sp st" and rc: "rank_cached n bp st"
    by (simp_all add: inv_def)
  have cn: "seller_next_choices st ! nat s < n" by (rule unmatched_cursor[OF vs iv s un])
  have c0: "0 \<le> c" "c < n" using co s cn by (simp_all add: cursors_ok_def c_def)
  have srow: "is_perm n (sp ! nat s)" by (rule valid_prefs_row[OF vs s])
  have b: "0 \<le> b" "b < n" using is_perm_nth[OF srow c0] by (simp_all add: b_def)
  have brow: "is_perm n (bp ! nat b)" by (rule valid_prefs_row[OF vb b])
  have r: "0 \<le> r" "r < n" "bp ! nat b ! nat r = s"
    using rank_of_range[OF brow s] by (simp_all add: r_def)
  have t: "0 \<le> t \<and> t < n \<and> seller_matches st ! nat t = b \<and> t \<noteq> s \<and>
      0 \<le> buyer_final_prefs st ! nat b \<and> buyer_final_prefs st ! nat b < n \<and>
      bp ! nat b ! nat (buyer_final_prefs st ! nat b) = t" if "t \<noteq> - 1"
  proof -
    from that matches_ok_buyer[OF mo b] have tr: "0 \<le> t" "t < n" by (auto simp: t_def)
    with matches_ok_iff[OF mo tr b] have "seller_matches st ! nat t = b" by (simp add: t_def)
    moreover from that rc b have "0 \<le> buyer_final_prefs st ! nat b \<and> buyer_final_prefs st ! nat b < n \<and>
      bp ! nat b ! nat (buyer_final_prefs st ! nat b) = t"
      unfolding rank_cached_def t_def by blast
    ultimately show ?thesis using tr un b by auto
  qed
  have "\<exists>st'. propose n sp bp s st = Inr st' \<and> shape n st' \<and>
    (\<forall>x. 0 \<le> x \<longrightarrow> x < n \<longrightarrow> seller_next_choices st' ! nat x =
       (if x = s then c + 1 else seller_next_choices st ! nat x)) \<and>
    (t = - 1 \<or> r < buyer_final_prefs st ! nat b \<longrightarrow>
          (\<forall>x. 0 \<le> x \<longrightarrow> x < n \<longrightarrow> seller_matches st' ! nat x =
             (if x = t then - 1 else if x = s then b else seller_matches st ! nat x)) \<and>
          (\<forall>x. 0 \<le> x \<longrightarrow> x < n \<longrightarrow> buyer_matches st' ! nat x =
             (if x = b then s else buyer_matches st ! nat x)) \<and>
          (\<forall>x. 0 \<le> x \<longrightarrow> x < n \<longrightarrow> buyer_final_prefs st' ! nat x =
             (if x = b then r else buyer_final_prefs st ! nat x)) \<and>
          bachelor_count st' = bachelor_count st - (if t = - 1 then 1 else 0)) \<and>
    (\<not> (t = - 1 \<or> r < buyer_final_prefs st ! nat b) \<longrightarrow>
          seller_matches st' = seller_matches st \<and> buyer_matches st' = buyer_matches st \<and>
          buyer_final_prefs st' = buyer_final_prefs st \<and> bachelor_count st' = bachelor_count st)"
    unfolding c_def b_def r_def t_def
    by (rule propose_effect[OF vs vb sh mo s c0[unfolded c_def]])
  with st' have
    snc: "\<And>x. 0 \<le> x \<Longrightarrow> x < n \<Longrightarrow> seller_next_choices st' ! nat x =
       (if x = s then c + 1 else seller_next_choices st ! nat x)"
    and won: "\<And>x. t = - 1 \<or> r < buyer_final_prefs st ! nat b \<Longrightarrow> 0 \<le> x \<Longrightarrow> x < n \<Longrightarrow>
       seller_matches st' ! nat x =
             (if x = t then - 1 else if x = s then b else seller_matches st ! nat x)"
    and lost: "\<not> (t = - 1 \<or> r < buyer_final_prefs st ! nat b) \<Longrightarrow>
       seller_matches st' = seller_matches st"
    by auto
  have old: "ms ! nat x \<noteq> sp ! nat x ! nat k"
    if "0 \<le> x" "x < n" "0 \<le> k" "k < seller_next_choices st ! nat x"
      "seller_matches st ! nat x \<noteq> sp ! nat x ! nat k" "matching n ms mb" "stable n sp bp ms mb"
    for x k ms mb
    using ns that unfolding no_stable_rejected_def by blast
  show ?thesis
    unfolding no_stable_rejected_def
  proof (intro allI impI notI)
    fix x k ms mb
    assume x: "0 \<le> x" "x < n" and k: "0 \<le> k" "k < seller_next_choices st' ! nat x"
      and nm: "seller_matches st' ! nat x \<noteq> sp ! nat x ! nat k"
      and mt: "matching n ms mb" and stb: "stable n sp bp ms mb"
      and eq: "ms ! nat x = sp ! nat x ! nat k"
    text \<open>The proposer prefers \<open>b\<close> to its partner in \<open>ms\<close>, unless that partner is \<open>b\<close>.\<close>
    have s_pref: "prefers (sp ! nat s) b (ms ! nat s)" if "ms ! nat s \<noteq> b"
      unfolding b_def
    proof (rule prefers_later[OF srow c0])
      from matching_facts[OF mt s] show "0 \<le> ms ! nat s" "ms ! nat s < n" by simp_all
    next
      fix k' assume k': "0 \<le> k'" "k' \<le> c"
      show "sp ! nat s ! nat k' \<noteq> ms ! nat s"
      proof (cases "k' = c")
        case True
        with that show ?thesis by (simp add: b_def)
      next
        case False
        with k' have lt: "k' < seller_next_choices st ! nat s" by (simp add: c_def)
        from k' c0 have "k' < n" by simp
        from is_perm_nth[OF srow k'(1) this] un
        have "seller_matches st ! nat s \<noteq> sp ! nat s ! nat k'" by simp
        from old[OF s k'(1) lt this mt stb] show ?thesis by simp
      qed
    qed
    text \<open>The seller that holds \<open>b\<close> prefers \<open>b\<close> to its partner in \<open>ms\<close>, unless that is \<open>b\<close>.\<close>
    have t_pref: "prefers (sp ! nat t) b (ms ! nat t)" if tn: "t \<noteq> - 1" and nb: "ms ! nat t \<noteq> b"
    proof -
      from t[OF tn] have tt: "0 \<le> t" "t < n" "seller_matches st ! nat t = b" by simp_all
      define p where "p = seller_next_choices st ! nat t - 1"
      from lc tt b have lt: "1 \<le> seller_next_choices st ! nat t" "sp ! nat t ! nat p = b"
        unfolding last_choice_def p_def by auto
      from co tt have "seller_next_choices st ! nat t \<le> n" unfolding cursors_ok_def by blast
      with lt have p: "0 \<le> p" "p < n" by (simp_all add: p_def)
      have trow: "is_perm n (sp ! nat t)" by (rule valid_prefs_row[OF vs tt(1,2)])
      have "prefers (sp ! nat t) (sp ! nat t ! nat p) (ms ! nat t)"
      proof (rule prefers_later[OF trow p])
        from matching_facts[OF mt tt(1,2)] show "0 \<le> ms ! nat t" "ms ! nat t < n" by simp_all
      next
        fix k' assume k': "0 \<le> k'" "k' \<le> p"
        show "sp ! nat t ! nat k' \<noteq> ms ! nat t"
        proof (cases "k' = p")
          case True
          with nb lt show ?thesis by simp
        next
          case False
          with k' have l: "k' < seller_next_choices st ! nat t" by (simp add: p_def)
          from k' p have kn: "k' < n" by simp
          have "sp ! nat t ! nat k' \<noteq> sp ! nat t ! nat p"
            using is_perm_inj[OF trow k'(1) kn p] False by blast
          with lt tt have "seller_matches st ! nat t \<noteq> sp ! nat t ! nat k'" by simp
          from old[OF tt(1,2) k'(1) l this mt stb] show ?thesis by simp
        qed
      qed
      with lt show ?thesis by simp
    qed
    have cases: "(k < seller_next_choices st ! nat x) \<or> (x = s \<and> k = c)"
      using snc[OF x] k by (auto simp: c_def split: if_splits)
    show False
    proof (cases "k < seller_next_choices st ! nat x \<and> seller_matches st ! nat x \<noteq> sp ! nat x ! nat k")
      case True
      with old[OF x k(1) _ _ mt stb] eq show False by blast
    next
      case False
      show False
      proof (cases "t = - 1 \<or> r < buyer_final_prefs st ! nat b")
        case w: True
        note sm' = won[OF w x]
        have xs: "x \<noteq> s \<or> k \<noteq> c"
        proof (rule ccontr)
          assume "\<not> (x \<noteq> s \<or> k \<noteq> c)"
          then have "x = s" "k = c" by simp_all
          moreover have "s \<noteq> t" using t b s by (cases "t = - 1") auto
          ultimately show False using sm' nm by (simp add: b_def)
        qed
        with cases have kl: "k < seller_next_choices st ! nat x" by blast
        with False have e: "seller_matches st ! nat x = sp ! nat x ! nat k" by simp
        from co x have "seller_next_choices st ! nat x \<le> n" unfolding cursors_ok_def by blast
        with kl have kn: "k < n" by simp
        from is_perm_nth[OF valid_prefs_row[OF vs x] k(1) kn] e
        have m0: "0 \<le> seller_matches st ! nat x" by simp
        with un have "x \<noteq> s" by auto
        with sm' nm e have xt: "x = t" by (auto split: if_splits)
        with x have tn: "t \<noteq> - 1" by auto
        from t[OF tn] xt e have bk: "sp ! nat x ! nat k = b" by simp
        with eq xt have mst: "ms ! nat t = b" by simp
        from t[OF tn] have tt: "0 \<le> t" "t < n" "t \<noteq> s"
          "0 \<le> buyer_final_prefs st ! nat b" "buyer_final_prefs st ! nat b < n"
          "bp ! nat b ! nat (buyer_final_prefs st ! nat b) = t" by simp_all
        from matching_facts[OF mt tt(1,2)] mst have mbb: "mb ! nat b = t" by simp
        have msb: "ms ! nat s \<noteq> b"
          using matching_inj[OF mt s tt(1,2)] mst tt(3) by auto
        from w tn have rl: "r < buyer_final_prefs st ! nat b" by simp
        have "rank_of (bp ! nat b) (bp ! nat b ! nat (buyer_final_prefs st ! nat b)) =
            buyer_final_prefs st ! nat b" by (rule rank_of_perm[OF brow tt(4,5)])
        with tt(6) rl have "prefers (bp ! nat b) s t" by (simp add: prefers_def r_def)
        with s_pref[OF msb] msb mbb tt(3) have "blocking sp bp ms mb s b"
          by (simp add: blocking_def)
        with stable_no_block[OF stb s b] show False by simp
      next
        case l: False
        then have tn: "t \<noteq> - 1" and rl: "buyer_final_prefs st ! nat b \<le> r" by auto
        from lost[OF l] nm have nm': "seller_matches st ! nat x \<noteq> sp ! nat x ! nat k" by simp
        with False cases have xs: "x = s" "k = c" by auto
        with eq have mss: "ms ! nat s = b" by (simp add: b_def)
        from t[OF tn] have tt: "0 \<le> t" "t < n" "t \<noteq> s"
          "0 \<le> buyer_final_prefs st ! nat b" "buyer_final_prefs st ! nat b < n"
          "bp ! nat b ! nat (buyer_final_prefs st ! nat b) = t" by simp_all
        from matching_facts[OF mt s] mss have mbb: "mb ! nat b = s" by simp
        have mtb: "ms ! nat t \<noteq> b"
          using matching_inj[OF mt s tt(1,2)] mss tt(3) by auto
        have rk: "rank_of (bp ! nat b) (bp ! nat b ! nat (buyer_final_prefs st ! nat b)) =
            buyer_final_prefs st ! nat b" by (rule rank_of_perm[OF brow tt(4,5)])
        have "buyer_final_prefs st ! nat b \<noteq> r" using tt(6) r(3) tt(3) by auto
        with rl rk tt(6) have "prefers (bp ! nat b) t s" by (simp add: prefers_def r_def)
        with t_pref[OF tn mtb] mtb mbb tt(3) have "blocking sp bp ms mb t b"
          by (simp add: blocking_def)
        with stable_no_block[OF stb tt(1,2) b] show False by simp
      qed
    qed
  qed
qed

lemma proposals_opt:
  assumes vs: "valid_prefs n sp" and vb: "valid_prefs n bp" and iv: "inv n sp bp st0"
    and ns: "no_stable_rejected n sp bp st0" and pr: "proposals n sp bp st0 log st"
  shows "no_stable_rejected n sp bp st"
  using pr
proof (induction rule: proposals.induct)
  case no_proposal
  from ns show ?case .
next
  case (one_more log st1 s st2)
  from proposals_inv[OF vs vb iv one_more.hyps(1)] have iv1: "inv n sp bp st1" by blast
  from one_more.hyps(2) have s: "0 \<le> s" "s < n" by simp_all
  from opt_step[OF vs vb iv1 one_more.IH s one_more.hyps(3,4)] show ?case .
qed

lemma final_seller_optimal:
  assumes vs: "valid_prefs n sp" and iv: "inv n sp bp fin" and bc: "bachelor_count fin = 0"
    and ns: "no_stable_rejected n sp bp fin"
    and mt: "matching n ms mb" and stb: "stable n sp bp ms mb" and s: "0 \<le> s" "s < n"
  shows "rank_of (sp ! nat s) (seller_matches fin ! nat s) \<le> rank_of (sp ! nat s) (ms ! nat s)"
proof (rule ccontr)
  assume "\<not> ?thesis"
  then have less: "rank_of (sp ! nat s) (ms ! nat s) < rank_of (sp ! nat s) (seller_matches fin ! nat s)"
    by simp
  from iv have co: "cursors_ok n fin" and lc: "last_choice n sp fin" by (simp_all add: inv_def)
  from final_matched[OF iv bc] s have sm: "0 \<le> seller_matches fin ! nat s" by simp
  define c where "c = seller_next_choices fin ! nat s"
  have srow: "is_perm n (sp ! nat s)" by (rule valid_prefs_row[OF vs s])
  from lc s sm have c: "1 \<le> c" "sp ! nat s ! nat (c - 1) = seller_matches fin ! nat s"
    unfolding last_choice_def c_def by auto
  from co s have cn: "c \<le> n" unfolding cursors_ok_def c_def by blast
  have "rank_of (sp ! nat s) (sp ! nat s ! nat (c - 1)) = c - 1"
    by (rule rank_of_perm[OF srow]) (use c cn in simp_all)
  with c have r1: "rank_of (sp ! nat s) (seller_matches fin ! nat s) = c - 1" by simp
  define q where "q = rank_of (sp ! nat s) (ms ! nat s)"
  from matching_facts[OF mt s] have "0 \<le> ms ! nat s" "ms ! nat s < n" by simp_all
  from rank_of_range[OF srow this] have q: "0 \<le> q" "q < n" "sp ! nat s ! nat q = ms ! nat s"
    by (simp_all add: q_def)
  from less r1 have ql: "q < c - 1" by (simp add: q_def)
  then have qc: "q < seller_next_choices fin ! nat s" by (simp add: c_def)
  have "sp ! nat s ! nat q \<noteq> sp ! nat s ! nat (c - 1)"
    using is_perm_inj[OF srow q(1,2), of "c - 1"] ql c cn by auto
  with c have "seller_matches fin ! nat s \<noteq> sp ! nat s ! nat q" by simp
  with ns s q(1) qc mt stb have "ms ! nat s \<noteq> sp ! nat s ! nat q"
    unfolding no_stable_rejected_def by blast
  with q(3) show False by simp
qed

lemma rank_of_inj:
  assumes "is_perm n row" "0 \<le> x" "x < n" "0 \<le> y" "y < n" "rank_of row x = rank_of row y"
  shows "x = y"
proof -
  from rank_of_range[OF assms(1,2,3)] have "row ! nat (rank_of row x) = x" by simp
  moreover from rank_of_range[OF assms(1,4,5)] have "row ! nat (rank_of row y) = y" by simp
  ultimately show ?thesis using assms(6) by metis
qed

lemma final_buyer_pessimal:
  assumes vs: "valid_prefs n sp" and vb: "valid_prefs n bp"
    and iv: "inv n sp bp fin" and bc: "bachelor_count fin = 0"
    and ns: "no_stable_rejected n sp bp fin"
    and mt: "matching n ms mb" and stb: "stable n sp bp ms mb" and b: "0 \<le> b" "b < n"
  shows "rank_of (bp ! nat b) (mb ! nat b) \<le> rank_of (bp ! nat b) (buyer_matches fin ! nat b)"
proof (rule ccontr)
  assume "\<not> ?thesis"
  then have less: "rank_of (bp ! nat b) (buyer_matches fin ! nat b) < rank_of (bp ! nat b) (mb ! nat b)"
    by simp
  define s where "s = buyer_matches fin ! nat b"
  from final_matched[OF iv bc] b have s: "0 \<le> s" "s < n" by (simp_all add: s_def)
  from iv have mo: "matches_ok n fin" by (simp add: inv_def)
  from matches_ok_iff[OF mo s b] have smb: "seller_matches fin ! nat s = b" by (simp add: s_def)
  from less have ne: "mb ! nat b \<noteq> s" by (auto simp: s_def)
  have msb: "ms ! nat s \<noteq> b"
  proof
    assume "ms ! nat s = b"
    with matching_facts[OF mt s] have "mb ! nat b = s" by simp
    with ne show False by simp
  qed
  have srow: "is_perm n (sp ! nat s)" by (rule valid_prefs_row[OF vs s])
  from final_seller_optimal[OF vs iv bc ns mt stb s] smb
  have le: "rank_of (sp ! nat s) b \<le> rank_of (sp ! nat s) (ms ! nat s)" by simp
  from matching_facts[OF mt s] have "0 \<le> ms ! nat s" "ms ! nat s < n" by simp_all
  from rank_of_inj[OF srow b this] msb
  have "rank_of (sp ! nat s) b \<noteq> rank_of (sp ! nat s) (ms ! nat s)" by auto
  with le have "prefers (sp ! nat s) b (ms ! nat s)" by (simp add: prefers_def)
  with less msb ne have "blocking sp bp ms mb s b" by (simp add: blocking_def prefers_def s_def)
  with stable_no_block[OF stb s b] show False by simp
qed

text \<open>
  Claim C3 (seller-optimality). For every \<open>n \<ge> 0\<close> and valid preference tables, the
  matching of the engine is stable, and against every stable matching of the same
  tables, given by its arrays \<open>ms\<close> (seller to buyer) and \<open>mb\<close> (buyer to seller), every
  seller ranks its buyer at least as high as its partner there (seller-optimal) and
  every buyer ranks its seller at most as high as its partner there (buyer-pessimal).
\<close>

theorem engine_seller_optimal:
  assumes "0 \<le> n" "valid_prefs n sp" "valid_prefs n bp"
  shows "\<exists>fin. engine n sp bp = Some (Inr fin) \<and>
    matching n (seller_matches fin) (buyer_matches fin) \<and>
    stable n sp bp (seller_matches fin) (buyer_matches fin) \<and>
    (\<forall>ms mb. matching n ms mb \<longrightarrow> stable n sp bp ms mb \<longrightarrow>
       (\<forall>s \<in> {0..<n}. rank_of (sp ! nat s) (seller_matches fin ! nat s) \<le>
          rank_of (sp ! nat s) (ms ! nat s)) \<and>
       (\<forall>b \<in> {0..<n}. rank_of (bp ! nat b) (mb ! nat b) \<le>
          rank_of (bp ! nat b) (buyer_matches fin ! nat b)))"
proof -
  from engine_total[OF assms(2,3,1)] obtain fin log where
    fin: "engine n sp bp = Some (Inr fin)" "inv n sp bp fin" "bachelor_count fin = 0"
    "proposals n sp bp (start n) log fin" by blast
  note ns = proposals_opt[OF assms(2,3) inv_start[OF assms(1)] no_stable_rejected_start fin(4)]
  have opt: "(\<forall>s \<in> {0..<n}. rank_of (sp ! nat s) (seller_matches fin ! nat s) \<le>
          rank_of (sp ! nat s) (ms ! nat s)) \<and>
       (\<forall>b \<in> {0..<n}. rank_of (bp ! nat b) (mb ! nat b) \<le>
          rank_of (bp ! nat b) (buyer_matches fin ! nat b))"
    if mt: "matching n ms mb" and stb: "stable n sp bp ms mb" for ms mb
  proof (intro conjI ballI)
    fix s assume "s \<in> {0..<n}"
    then have "0 \<le> s" "s < n" by simp_all
    then show "rank_of (sp ! nat s) (seller_matches fin ! nat s) \<le> rank_of (sp ! nat s) (ms ! nat s)"
      by (rule final_seller_optimal[OF assms(2) fin(2,3) ns mt stb])
  next
    fix b assume "b \<in> {0..<n}"
    then have "0 \<le> b" "b < n" by simp_all
    then show "rank_of (bp ! nat b) (mb ! nat b) \<le> rank_of (bp ! nat b) (buyer_matches fin ! nat b)"
      by (rule final_buyer_pessimal[OF assms(2,3) fin(2,3) ns mt stb])
  qed
  from final_matching[OF fin(2,3)] have "matching n (seller_matches fin) (buyer_matches fin)" by blast
  with fin(1) final_stable[OF assms(2,3) fin(2,3)] opt show ?thesis by blast
qed

text \<open>
  The witness is a table with three stable matchings: the engine returns the one in
  which every seller has its first choice, and the matching in which every buyer has
  its first choice is stable too and is at least as good for no seller.
\<close>

theorem engine_seller_optimal_witness:
  "(0::int) \<le> 3 \<and> valid_prefs 3 [[0,1,2],[1,2,0],[2,0,1]] \<and> valid_prefs 3 [[1,2,0],[2,0,1],[0,1,2]] \<and>
   matching 3 [2,0,1] [1,2,0] \<and> stable 3 [[0,1,2],[1,2,0],[2,0,1]] [[1,2,0],[2,0,1],[0,1,2]] [2,0,1] [1,2,0] \<and>
   (\<exists>fin. engine 3 [[0,1,2],[1,2,0],[2,0,1]] [[1,2,0],[2,0,1],[0,1,2]] = Some (Inr fin) \<and>
      seller_matches fin = [0,1,2] \<and>
      (\<forall>s \<in> {0..<3}. rank_of ([[0,1,2],[1,2,0],[2,0,1]] ! nat s) (seller_matches fin ! nat s) \<le>
          rank_of ([[0,1,2],[1,2,0],[2,0,1]] ! nat s) ([2,0,1] ! nat s)))"
proof -
  let ?sp = "[[0,1,2],[1,2,0],[2,0,1::int]]" and ?bp = "[[1,2,0],[2,0,1],[0,1,2::int]]"
  have h0: "(0::int) \<le> 3" by simp
  have h1: "valid_prefs 3 ?sp" by code_simp
  have h2: "valid_prefs 3 ?bp" by code_simp
  have m: "matching 3 [2,0,1] [1,2,0]" by code_simp
  have st: "stable 3 ?sp ?bp [2,0,1] [1,2,0]" by code_simp
  have e: "engine 3 ?sp ?bp =
      Some (Inr \<lparr>seller_next_choices = [1, 1, 1], buyer_final_prefs = [2, 2, 2],
          seller_matches = [0, 1, 2], buyer_matches = [0, 1, 2],
          bachelor_count = 0, curr_seller_rank = 2\<rparr>)" by code_simp
  from engine_seller_optimal[OF h0 h1 h2] obtain fin where
    r: "engine 3 ?sp ?bp = Some (Inr fin)" and
    o: "\<And>ms mb. matching 3 ms mb \<Longrightarrow> stable 3 ?sp ?bp ms mb \<Longrightarrow>
       (\<forall>s \<in> {0..<3}. rank_of (?sp ! nat s) (seller_matches fin ! nat s) \<le>
          rank_of (?sp ! nat s) (ms ! nat s))"
    by blast
  from r e have "fin = \<lparr>seller_next_choices = [1, 1, 1], buyer_final_prefs = [2, 2, 2],
          seller_matches = [0, 1, 2], buyer_matches = [0, 1, 2],
          bachelor_count = 0, curr_seller_rank = 2\<rparr>" by simp
  then have "seller_matches fin = [0,1,2]" by simp
  with o[OF m st] r h0 h1 h2 m st show ?thesis by blast
qed

section \<open>The preference generator\<close>

lemma sdiv_nonneg: "0 \<le> k \<Longrightarrow> 0 < l \<Longrightarrow> k sdiv l = k div (l::int)"
  by (cases "k = 0") (simp_all add: signed_divide_int_def)

lemma shuffle_index:
  assumes "0 \<le> rv" "rv \<le> rm" "2 \<le> m"
  shows "0 \<le> rv sdiv (rm sdiv m + 1) \<and> rv sdiv (rm sdiv m + 1) < (m::int)"
proof -
  from assms have rm: "0 \<le> rm" by simp
  have e1: "rm sdiv m = rm div m" using rm assms(3) by (simp add: sdiv_nonneg)
  define d where "d = rm div m + 1"
  have d: "1 \<le> d" using rm assms(3) by (simp add: d_def pos_imp_zdiv_nonneg_iff)
  have e2: "rv sdiv d = rv div d" using assms(1) d by (simp add: sdiv_nonneg)
  have "rm < m * d"
  proof -
    have "m * (rm div m) + rm mod m = rm" by (rule mult_div_mod_eq)
    moreover have "rm mod m < m" using assms(3) by simp
    ultimately have "rm < m * (rm div m) + m" by linarith
    then show ?thesis by (simp add: d_def algebra_simps)
  qed
  with assms(2) have lt: "rv < m * d" by simp
  have "rv div d < m"
  proof (rule ccontr)
    assume "\<not> rv div d < m"
    then have "m \<le> rv div d" by simp
    with d have "m * d \<le> (rv div d) * d" by (simp add: mult_right_mono)
    also have "\<dots> \<le> rv"
    proof -
      have "rv div d * d + rv mod d = rv" by (rule div_mult_mod_eq)
      moreover have "0 \<le> rv mod d" using d by simp
      ultimately show ?thesis by linarith
    qed
    finally show False using lt by simp
  qed
  moreover have "0 \<le> rv div d" using assms(1) d by (simp add: pos_imp_zdiv_nonneg_iff)
  ultimately show ?thesis using e1 e2 by (simp add: d_def)
qed

lemma is_perm_swap:
  assumes "is_perm n a" "0 \<le> i" "i < n" "0 \<le> j" "j < n"
  shows "is_perm n (a[nat j := a ! nat i, nat i := a ! nat j])"
proof -
  from is_perm_length[OF assms(1)] assms have l: "nat i < length a" "nat j < length a" by simp_all
  from assms(1) have "distinct a" "set a = {0..<n}" by (simp_all add: is_perm_def)
  with distinct_swap[OF l(2,1)] set_swap[OF l(2,1)] show ?thesis by (simp add: is_perm_def)
qed

lemma shuffle_loop:
  assumes rc: "rand_contract rand_max rnd" and p: "is_perm n a"
    and js: "\<forall>i \<in> set js. 0 \<le> i \<and> i \<le> n - 2"
  shows "\<exists>a'. for_each (shuffle_body rand_max rnd n) js (a, k) = Inr (a', k + length js) \<and>
    is_perm n a'"
  using p js
proof (induction js arbitrary: a k)
  case Nil
  then show ?case by simp
next
  case (Cons i js)
  from Cons.prems(2) have i: "0 \<le> i" "i \<le> n - 2" by simp_all
  define j where "j = i + rnd k sdiv (rand_max sdiv (n - i) + 1)"
  from rc have "0 \<le> rnd k" "rnd k \<le> rand_max" by (simp_all add: rand_contract_def)
  from shuffle_index[OF this, of "n - i"] i have j: "i \<le> j" "j < n" by (simp_all add: j_def)
  have len: "length a = nat n" by (rule is_perm_length[OF Cons.prems(1)])
  define a1 where "a1 = a[nat j := a ! nat i, nat i := a ! nat j]"
  have b: "shuffle_body rand_max rnd n i (a, k) = Inr (a1, Suc k)"
    using i j len by (simp add: shuffle_body_def j_def[symmetric] rd_in wr_in a1_def Let_def)
  have p1: "is_perm n a1" unfolding a1_def
    by (rule is_perm_swap[OF Cons.prems(1)]) (use i j in simp_all)
  from Cons.IH[OF p1, of "Suc k"] Cons.prems(2) obtain a' where
    "for_each (shuffle_body rand_max rnd n) js (a1, Suc k) = Inr (a', Suc k + length js)"
    "is_perm n a'" by auto
  with b show ?case by simp
qed

lemma shuffle_array_perm:
  assumes "rand_contract rand_max rnd" "is_perm n a"
  shows "\<exists>a'. shuffle_array rand_max rnd n (a, k) = Inr (a', k + nat (n - 1)) \<and> is_perm n a'"
proof -
  have "\<forall>i \<in> set [0..n - 2]. 0 \<le> i \<and> i \<le> n - 2" by simp
  from shuffle_loop[OF assms this, of k] show ?thesis by (simp add: shuffle_array_def)
qed

lemma copy_loop:
  assumes lr: "length rl = nat n" and i: "0 \<le> i" "i < n"
    and lp: "length prefs = nat n" and li: "length (prefs ! nat i) = nat n"
    and js: "\<forall>j \<in> set js. 0 \<le> j \<and> j < n"
  shows "\<exists>prefs'. for_each (\<lambda>j prefs.
     bnd (rd rl j) (\<lambda>v.
     bnd (rd prefs i) (\<lambda>row.
     bnd (wr row j v) (\<lambda>row.
     wr prefs i row)))) js prefs = Inr prefs' \<and>
    length prefs' = nat n \<and> length (prefs' ! nat i) = nat n \<and>
    (\<forall>x. 0 \<le> x \<longrightarrow> x < n \<longrightarrow> x \<noteq> i \<longrightarrow> prefs' ! nat x = prefs ! nat x) \<and>
    (\<forall>y. 0 \<le> y \<longrightarrow> y < n \<longrightarrow>
       prefs' ! nat i ! nat y = (if y \<in> set js then rl ! nat y else prefs ! nat i ! nat y))"
  using lp li js
proof (induction js arbitrary: prefs)
  case Nil
  then show ?case by simp
next
  case (Cons j js)
  let ?body = "\<lambda>j prefs.
     bnd (rd rl j) (\<lambda>v.
     bnd (rd prefs i) (\<lambda>row.
     bnd (wr row j v) (\<lambda>row.
     wr prefs i row)))"
  from Cons.prems(3) have j: "0 \<le> j" "j < n" by simp_all
  define p1 where "p1 = prefs[nat i := (prefs ! nat i)[nat j := rl ! nat j]]"
  have b: "?body j prefs = Inr p1"
    using i j lr Cons.prems(1,2) by (simp add: rd_in wr_in p1_def)
  have l1: "length p1 = nat n" "length (p1 ! nat i) = nat n"
    using i Cons.prems(1,2) by (simp_all add: p1_def)
  from Cons.IH[OF l1] Cons.prems(3) obtain prefs' where p':
    "for_each ?body js p1 = Inr prefs'" "length prefs' = nat n" "length (prefs' ! nat i) = nat n"
    "\<And>x. 0 \<le> x \<Longrightarrow> x < n \<Longrightarrow> x \<noteq> i \<Longrightarrow> prefs' ! nat x = p1 ! nat x"
    "\<And>y. 0 \<le> y \<Longrightarrow> y < n \<Longrightarrow>
       prefs' ! nat i ! nat y = (if y \<in> set js then rl ! nat y else p1 ! nat i ! nat y)"
    by auto
  have "for_each ?body (j # js) prefs = Inr prefs'" using b p'(1) by simp
  moreover have "prefs' ! nat x = prefs ! nat x" if "0 \<le> x" "x < n" "x \<noteq> i" for x
    using p'(4)[OF that] that i Cons.prems(1) by (simp add: p1_def nth_upd_int)
  moreover have "prefs' ! nat i ! nat y = (if y \<in> set (j # js) then rl ! nat y else prefs ! nat i ! nat y)"
    if "0 \<le> y" "y < n" for y
    using p'(5)[OF that] that i j Cons.prems(1,2) by (simp add: p1_def nth_upd_int)
  ultimately show ?case using p'(2,3) by blast
qed

lemma copy_row_eq:
  assumes lr: "length rl = nat n" and i: "0 \<le> i" "i < n"
    and lp: "length prefs = nat n" and li: "length (prefs ! nat i) = nat n"
  shows "copy_row n i rl prefs = Inr (prefs[nat i := rl])"
proof -
  have "\<forall>j \<in> set [0..n - 1]. 0 \<le> j \<and> j < n" by simp
  from copy_loop[OF lr i lp li this] obtain prefs' where p':
    "copy_row n i rl prefs = Inr prefs'" "length prefs' = nat n" "length (prefs' ! nat i) = nat n"
    "\<And>x. 0 \<le> x \<Longrightarrow> x < n \<Longrightarrow> x \<noteq> i \<Longrightarrow> prefs' ! nat x = prefs ! nat x"
    "\<And>y. 0 \<le> y \<Longrightarrow> y < n \<Longrightarrow>
       prefs' ! nat i ! nat y = (if y \<in> set [0..n - 1] then rl ! nat y else prefs ! nat i ! nat y)"
    unfolding copy_row_def by blast
  have row: "prefs' ! nat i = rl"
  proof (rule nth_equalityI)
    show "length (prefs' ! nat i) = length rl" using p'(3) lr by simp
  next
    fix y assume "y < length (prefs' ! nat i)"
    with p'(3) have y: "0 \<le> int y" "int y < n" by simp_all
    from p'(5)[OF y] y show "prefs' ! nat i ! y = rl ! y" by simp
  qed
  have "prefs' = prefs[nat i := rl]"
  proof (rule nth_equalityI)
    show "length prefs' = length (prefs[nat i := rl])" using p'(2) lp by simp
  next
    fix x assume "x < length prefs'"
    with p'(2) have x: "0 \<le> int x" "int x < n" "x < length prefs" using lp by simp_all
    show "prefs' ! x = prefs[nat i := rl] ! x"
    proof (cases "int x = i")
      case True
      with row x i show ?thesis by auto
    next
      case False
      from p'(4)[OF x(1,2) False] False x i show ?thesis by (auto simp: nth_list_update)
    qed
  qed
  with p'(1) show ?thesis by simp
qed

lemma fill_loop:
  assumes "length rl = nat n" "\<forall>j \<in> set js. 0 \<le> j \<and> j < n"
  shows "\<exists>rl'. for_each (\<lambda>i rl. wr rl i i) js rl = Inr rl' \<and> length rl' = nat n \<and>
    (\<forall>x. 0 \<le> x \<longrightarrow> x < n \<longrightarrow> rl' ! nat x = (if x \<in> set js then x else rl ! nat x))"
  using assms
proof (induction js arbitrary: rl)
  case Nil
  then show ?case by simp
next
  case (Cons j js)
  from Cons.prems have j: "0 \<le> j" "j < n" by simp_all
  have b: "wr rl j j = Inr (rl[nat j := j])" using j Cons.prems(1) by (simp add: wr_in)
  have "length (rl[nat j := j]) = nat n" using Cons.prems(1) by simp
  from Cons.IH[OF this] Cons.prems(2) obtain rl' where r:
    "for_each (\<lambda>i rl. wr rl i i) js (rl[nat j := j]) = Inr rl'" "length rl' = nat n"
    "\<And>x. 0 \<le> x \<Longrightarrow> x < n \<Longrightarrow> rl' ! nat x = (if x \<in> set js then x else rl[nat j := j] ! nat x)"
    by auto
  have "for_each (\<lambda>i rl. wr rl i i) (j # js) rl = Inr rl'" using b r(1) by simp
  moreover have "rl' ! nat x = (if x \<in> set (j # js) then x else rl ! nat x)"
    if "0 \<le> x" "x < n" for x
    using r(3)[OF that] that j Cons.prems(1) by (simp add: nth_upd_int)
  ultimately show ?case using r(2) by blast
qed

lemma init_randlist_eq: "init_randlist n = Inr [0..n - 1]"
proof -
  have "\<forall>j \<in> set [0..n - 1]. 0 \<le> j \<and> j < n" by simp
  from fill_loop[OF _ this, of "replicate (nat n) 0"] obtain rl' where r:
    "init_randlist n = Inr rl'" "length rl' = nat n"
    "\<And>x. 0 \<le> x \<Longrightarrow> x < n \<Longrightarrow> rl' ! nat x = (if x \<in> set [0..n - 1] then x else replicate (nat n) 0 ! nat x)"
    unfolding init_randlist_def by auto
  have "rl' = [0..n - 1]"
  proof (rule nth_equalityI)
    show "length rl' = length [0..n - 1]" using r(2) by simp
  next
    fix x assume "x < length rl'"
    with r(2) have x: "0 \<le> int x" "int x < n" by simp_all
    from r(3)[OF x] x show "rl' ! x = [0..n - 1] ! x" by simp
  qed
  with r(1) show ?thesis by simp
qed

lemma is_perm_upto: "is_perm n [0..n - 1]"
  by (auto simp: is_perm_def)

lemma gen_body_eq:
  assumes rc: "rand_contract rand_max rnd" and ok: "gen_ok n g" and i: "0 \<le> i" "i < n"
  shows "\<exists>rl1 rl2. is_perm n rl1 \<and> is_perm n rl2 \<and>
    shuffle_array rand_max rnd n (randlist g, calls g) = Inr (rl1, calls g + nat (n - 1)) \<and>
    shuffle_array rand_max rnd n (rl1, calls g + nat (n - 1)) = Inr (rl2, calls g + 2 * nat (n - 1)) \<and>
    gen_body rand_max rnd n i g = Inr \<lparr>randlist = rl2, calls = calls g + 2 * nat (n - 1),
      seller_prefs = (seller_prefs g)[nat i := rl1], buyer_prefs = (buyer_prefs g)[nat i := rl2]\<rparr>"
proof -
  from ok have p: "is_perm n (randlist g)"
    and ls: "length (seller_prefs g) = nat n" "\<forall>row \<in> set (seller_prefs g). length row = nat n"
    and lb: "length (buyer_prefs g) = nat n" "\<forall>row \<in> set (buyer_prefs g). length row = nat n"
    by (simp_all add: gen_ok_def)
  from shuffle_array_perm[OF rc p, of "calls g"] obtain rl1 where
    s1: "shuffle_array rand_max rnd n (randlist g, calls g) = Inr (rl1, calls g + nat (n - 1))"
    and p1: "is_perm n rl1" by blast
  from shuffle_array_perm[OF rc p1, of "calls g + nat (n - 1)"] obtain rl2 where
    s2: "shuffle_array rand_max rnd n (rl1, calls g + nat (n - 1)) = Inr (rl2, calls g + 2 * nat (n - 1))"
    and p2: "is_perm n rl2" by auto
  from i ls have "seller_prefs g ! nat i \<in> set (seller_prefs g)" by simp
  with ls have lsi: "length (seller_prefs g ! nat i) = nat n" by blast
  from i lb have "buyer_prefs g ! nat i \<in> set (buyer_prefs g)" by simp
  with lb have lbi: "length (buyer_prefs g ! nat i) = nat n" by blast
  note c1 = copy_row_eq[OF is_perm_length[OF p1] i ls(1) lsi]
  note c2 = copy_row_eq[OF is_perm_length[OF p2] i lb(1) lbi]
  have "gen_body rand_max rnd n i g = Inr \<lparr>randlist = rl2, calls = calls g + 2 * nat (n - 1),
      seller_prefs = (seller_prefs g)[nat i := rl1], buyer_prefs = (buyer_prefs g)[nat i := rl2]\<rparr>"
    by (simp add: gen_body_def s1 s2 c1 c2)
  with p1 p2 s1 s2 show ?thesis by blast
qed

lemma gen_ok_update:
  assumes "gen_ok n g" "is_perm n rl1" "is_perm n rl2"
  shows "gen_ok n \<lparr>randlist = rl2, calls = c,
      seller_prefs = (seller_prefs g)[nat i := rl1], buyer_prefs = (buyer_prefs g)[nat i := rl2]\<rparr>"
proof -
  have "set ((seller_prefs g)[nat i := rl1]) \<subseteq> insert rl1 (set (seller_prefs g))"
    "set ((buyer_prefs g)[nat i := rl2]) \<subseteq> insert rl2 (set (buyer_prefs g))"
    by (rule set_update_subset_insert)+
  with assms is_perm_length[OF assms(2)] is_perm_length[OF assms(3)] show ?thesis
    unfolding gen_ok_def by auto
qed

lemma gen_chain:
  assumes rc: "rand_contract rand_max rnd" and lo: "0 \<le> lo" "lo \<le> n"
    and ok: "gen_ok n g" and cg: "calls g = nat (2 * lo * (n - 1))"
  shows "\<exists>g'. for_each (gen_body rand_max rnd n) [lo..n - 1] g = Inr g' \<and> gen_ok n g' \<and>
    (\<forall>x. 0 \<le> x \<longrightarrow> x < lo \<longrightarrow> seller_prefs g' ! nat x = seller_prefs g ! nat x \<and>
       buyer_prefs g' ! nat x = buyer_prefs g ! nat x) \<and>
    (\<forall>i. lo \<le> i \<longrightarrow> i < n \<longrightarrow>
       is_perm n (seller_prefs g' ! nat i) \<and> is_perm n (buyer_prefs g' ! nat i) \<and>
       shuffle_array rand_max rnd n
         (if i = lo then randlist g else buyer_prefs g' ! nat (i - 1), nat (2 * i * (n - 1))) =
         Inr (seller_prefs g' ! nat i, nat ((2 * i + 1) * (n - 1))) \<and>
       shuffle_array rand_max rnd n (seller_prefs g' ! nat i, nat ((2 * i + 1) * (n - 1))) =
         Inr (buyer_prefs g' ! nat i, nat ((2 * i + 2) * (n - 1))))"
  using lo ok cg
proof (induction "nat (n - lo)" arbitrary: lo g)
  case 0
  then have "[lo..n - 1] = []" by simp
  with 0 show ?case by auto
next
  case (Suc m)
  from Suc.hyps(2) Suc.prems have lo: "0 \<le> lo" "lo < n" and n1: "1 \<le> n" by simp_all
  from gen_body_eq[OF rc Suc.prems(3) lo] obtain rl1 rl2 where
    p: "is_perm n rl1" "is_perm n rl2"
    and s1: "shuffle_array rand_max rnd n (randlist g, calls g) = Inr (rl1, calls g + nat (n - 1))"
    and s2: "shuffle_array rand_max rnd n (rl1, calls g + nat (n - 1)) = Inr (rl2, calls g + 2 * nat (n - 1))"
    and gb: "gen_body rand_max rnd n lo g = Inr \<lparr>randlist = rl2, calls = calls g + 2 * nat (n - 1),
      seller_prefs = (seller_prefs g)[nat lo := rl1], buyer_prefs = (buyer_prefs g)[nat lo := rl2]\<rparr>"
    by blast
  define g1 where "g1 = \<lparr>randlist = rl2, calls = calls g + 2 * nat (n - 1),
      seller_prefs = (seller_prefs g)[nat lo := rl1], buyer_prefs = (buyer_prefs g)[nat lo := rl2]\<rparr>"
  have ok1: "gen_ok n g1" unfolding g1_def by (rule gen_ok_update[OF Suc.prems(3) p])
  have A: "0 \<le> 2 * lo * (n - 1)" using lo n1 by simp
  have "nat (2 * lo * (n - 1)) + nat (n - 1) = nat (2 * lo * (n - 1) + (n - 1))"
    using A n1 by (simp add: nat_add_distrib)
  also have "2 * lo * (n - 1) + (n - 1) = (2 * lo + 1) * (n - 1)" by (simp add: algebra_simps)
  finally have a1: "nat (2 * lo * (n - 1)) + nat (n - 1) = nat ((2 * lo + 1) * (n - 1))" .
  have "nat (2 * lo * (n - 1)) + 2 * nat (n - 1) = nat (2 * lo * (n - 1) + 2 * (n - 1))"
    using A n1 by (simp add: nat_add_distrib nat_mult_distrib)
  also have "2 * lo * (n - 1) + 2 * (n - 1) = (2 * lo + 2) * (n - 1)" by (simp add: algebra_simps)
  finally have a2: "nat (2 * lo * (n - 1)) + 2 * nat (n - 1) = nat ((2 * lo + 2) * (n - 1))" .
  have c1: "calls g1 = nat (2 * (lo + 1) * (n - 1))"
    using a2 Suc.prems(4) by (simp add: g1_def algebra_simps)
  from Suc.hyps(2) have m: "m = nat (n - (lo + 1))" by simp
  from Suc.hyps(1)[OF m _ _ ok1 c1] lo obtain g' where
    run: "for_each (gen_body rand_max rnd n) [lo + 1..n - 1] g1 = Inr g'" and ok': "gen_ok n g'"
    and keep: "\<And>x. 0 \<le> x \<Longrightarrow> x < lo + 1 \<Longrightarrow> seller_prefs g' ! nat x = seller_prefs g1 ! nat x \<and>
       buyer_prefs g' ! nat x = buyer_prefs g1 ! nat x"
    and rest: "\<And>i. lo + 1 \<le> i \<Longrightarrow> i < n \<Longrightarrow>
       is_perm n (seller_prefs g' ! nat i) \<and> is_perm n (buyer_prefs g' ! nat i) \<and>
       shuffle_array rand_max rnd n
         (if i = lo + 1 then randlist g1 else buyer_prefs g' ! nat (i - 1), nat (2 * i * (n - 1))) =
         Inr (seller_prefs g' ! nat i, nat ((2 * i + 1) * (n - 1))) \<and>
       shuffle_array rand_max rnd n (seller_prefs g' ! nat i, nat ((2 * i + 1) * (n - 1))) =
         Inr (buyer_prefs g' ! nat i, nat ((2 * i + 2) * (n - 1)))"
    by auto
  from Suc.prems(3) have len: "length (seller_prefs g) = nat n" "length (buyer_prefs g) = nat n"
    by (simp_all add: gen_ok_def)
  have rows: "seller_prefs g' ! nat lo = rl1" "buyer_prefs g' ! nat lo = rl2"
    using keep[of lo] lo len by (simp_all add: g1_def)
  have "[lo..n - 1] = lo # [lo + 1..n - 1]" using lo by (simp add: upto_rec1)
  with gb run have r: "for_each (gen_body rand_max rnd n) [lo..n - 1] g = Inr g'"
    by (simp add: g1_def)
  have k: "seller_prefs g' ! nat x = seller_prefs g ! nat x \<and>
       buyer_prefs g' ! nat x = buyer_prefs g ! nat x" if "0 \<le> x" "x < lo" for x
    using keep[of x] that lo len by (simp add: g1_def nth_upd_int)
  have c: "is_perm n (seller_prefs g' ! nat i) \<and> is_perm n (buyer_prefs g' ! nat i) \<and>
       shuffle_array rand_max rnd n
         (if i = lo then randlist g else buyer_prefs g' ! nat (i - 1), nat (2 * i * (n - 1))) =
         Inr (seller_prefs g' ! nat i, nat ((2 * i + 1) * (n - 1))) \<and>
       shuffle_array rand_max rnd n (seller_prefs g' ! nat i, nat ((2 * i + 1) * (n - 1))) =
         Inr (buyer_prefs g' ! nat i, nat ((2 * i + 2) * (n - 1)))"
    if i: "lo \<le> i" "i < n" for i
  proof (cases "i = lo")
    case True
    with rows p s1 s2 Suc.prems(4) a1 a2 show ?thesis by simp
  next
    case False
    with i have i1: "lo + 1 \<le> i" by simp
    show ?thesis
    proof (cases "i = lo + 1")
      case True
      with rest[OF i1 i(2)] rows show ?thesis by (simp add: g1_def)
    next
      case f: False
      with rest[OF i1 i(2)] False show ?thesis by simp
    qed
  qed
  from r ok' k c show ?case by blast
qed

lemma generate_chain:
  assumes rc: "rand_contract rand_max rnd" and n: "0 \<le> n"
  shows "\<exists>g. generate rand_max rnd n = Inr g \<and> gen_ok n g \<and>
    (\<forall>i. 0 \<le> i \<longrightarrow> i < n \<longrightarrow>
       is_perm n (seller_prefs g ! nat i) \<and> is_perm n (buyer_prefs g ! nat i) \<and>
       shuffle_array rand_max rnd n
         (if i = 0 then [0..n - 1] else buyer_prefs g ! nat (i - 1), nat (2 * i * (n - 1))) =
         Inr (seller_prefs g ! nat i, nat ((2 * i + 1) * (n - 1))) \<and>
       shuffle_array rand_max rnd n (seller_prefs g ! nat i, nat ((2 * i + 1) * (n - 1))) =
         Inr (buyer_prefs g ! nat i, nat ((2 * i + 2) * (n - 1))))"
proof -
  define g0 where "g0 = \<lparr>randlist = [0..n - 1], calls = 0,
        seller_prefs = replicate (nat n) (replicate (nat n) 0),
        buyer_prefs = replicate (nat n) (replicate (nat n) 0)\<rparr>"
  have ok: "gen_ok n g0" by (simp add: gen_ok_def g0_def is_perm_upto)
  have c: "calls g0 = nat (2 * 0 * (n - 1))" by (simp add: g0_def)
  from gen_chain[OF rc _ n ok c] obtain g where
    g: "for_each (gen_body rand_max rnd n) [0..n - 1] g0 = Inr g" "gen_ok n g"
    "\<And>i. 0 \<le> i \<Longrightarrow> i < n \<Longrightarrow>
       is_perm n (seller_prefs g ! nat i) \<and> is_perm n (buyer_prefs g ! nat i) \<and>
       shuffle_array rand_max rnd n
         (if i = 0 then randlist g0 else buyer_prefs g ! nat (i - 1), nat (2 * i * (n - 1))) =
         Inr (seller_prefs g ! nat i, nat ((2 * i + 1) * (n - 1))) \<and>
       shuffle_array rand_max rnd n (seller_prefs g ! nat i, nat ((2 * i + 1) * (n - 1))) =
         Inr (buyer_prefs g ! nat i, nat ((2 * i + 2) * (n - 1)))"
    by auto
  have "generate rand_max rnd n = Inr g"
    using g(1) by (simp add: generate_def init_randlist_eq g0_def)
  moreover have r0: "randlist g0 = [0..n - 1]" by (simp add: g0_def)
  note g(3)[unfolded r0]
  ultimately show ?thesis using g(2) by blast
qed

section \<open>The claims about the generator and the program\<close>

lemma generate_valid:
  assumes "0 \<le> n" "rand_contract rand_max rnd"
  shows "\<exists>g. generate rand_max rnd n = Inr g \<and>
    valid_prefs n (seller_prefs g) \<and> valid_prefs n (buyer_prefs g)"
proof -
  from generate_chain[OF assms(2,1)] obtain g where g: "generate rand_max rnd n = Inr g"
    "gen_ok n g"
    "\<And>i. 0 \<le> i \<Longrightarrow> i < n \<Longrightarrow>
       is_perm n (seller_prefs g ! nat i) \<and> is_perm n (buyer_prefs g ! nat i)"
    by blast
  from g(2) have len: "length (seller_prefs g) = nat n" "length (buyer_prefs g) = nat n"
    by (simp_all add: gen_ok_def)
  have "is_perm n row" if "row \<in> set (seller_prefs g)" for row
  proof -
    from that obtain x where x: "x < length (seller_prefs g)" "seller_prefs g ! x = row"
      by (auto simp: in_set_conv_nth)
    with len have "0 \<le> int x" "int x < n" by simp_all
    from g(3)[OF this] x show ?thesis by simp
  qed
  moreover have "is_perm n row" if "row \<in> set (buyer_prefs g)" for row
  proof -
    from that obtain x where x: "x < length (buyer_prefs g)" "buyer_prefs g ! x = row"
      by (auto simp: in_set_conv_nth)
    with len have "0 \<le> int x" "int x < n" by simp_all
    from g(3)[OF this] x show ?thesis by simp
  qed
  ultimately show ?thesis using g(1) len by (auto simp: valid_prefs_def)
qed

text \<open>
  Claim C7 (rows are permutations). For every \<open>n \<ge> 0\<close> and every randomness source
  that returns values between 0 and \<open>rand_max\<close>, as \<^verbatim>\<open>rand()\<close> does, the generator
  returns two tables in which every row is a permutation of \<open>[0, n)\<close>.
\<close>

theorem generate_permutations:
  assumes "0 \<le> n" "rand_contract rand_max rnd"
  shows "\<exists>g. generate rand_max rnd n = Inr g \<and>
    length (seller_prefs g) = nat n \<and> length (buyer_prefs g) = nat n \<and>
    (\<forall>row \<in> set (seller_prefs g). distinct row \<and> set row = {0..<n}) \<and>
    (\<forall>row \<in> set (buyer_prefs g). distinct row \<and> set row = {0..<n})"
  using generate_valid[OF assms] by (auto simp: valid_prefs_def is_perm_def)

theorem generate_permutations_witness:
  "(0::int) \<le> 2 \<and> rand_contract 1 one_then_zero \<and>
   (\<exists>g. generate 1 one_then_zero 2 = Inr g \<and> seller_prefs g = [[1, 0], [1, 0]] \<and>
      (\<forall>row \<in> set (seller_prefs g). distinct row \<and> set row = {0..<2}) \<and>
      (\<forall>row \<in> set (buyer_prefs g). distinct row \<and> set row = {0..<2}))"
proof -
  have h0: "(0::int) \<le> 2" by simp
  have h1: "rand_contract 1 one_then_zero" by (simp add: rand_contract_def one_then_zero_def)
  have e: "generate 1 one_then_zero 2 = Inr \<lparr>randlist = [1, 0], calls = 4,
      seller_prefs = [[1, 0], [1, 0]], buyer_prefs = [[1, 0], [1, 0]]\<rparr>" by code_simp
  from generate_permutations[OF h0 h1] obtain g where
    g: "generate 1 one_then_zero 2 = Inr g"
    "\<forall>row \<in> set (seller_prefs g). distinct row \<and> set row = {0..<2}"
    "\<forall>row \<in> set (buyer_prefs g). distinct row \<and> set row = {0..<2}" by blast
  from g(1) e have "g = \<lparr>randlist = [1, 0], calls = 4,
      seller_prefs = [[1, 0], [1, 0]], buyer_prefs = [[1, 0], [1, 0]]\<rparr>" by simp
  then have "seller_prefs g = [[1, 0], [1, 0]]" by simp
  with g h0 h1 show ?thesis by blast
qed

text \<open>
  Claim C6 (each shuffle starts from the identity sequence) does not hold: \<open>randlist\<close>
  is filled once, before the row loop, and never reset. With \<open>n = 2\<close> and a source whose
  first value swaps the two entries and whose second value swaps nothing, the second
  row is \<open>[1, 0]\<close>, where a shuffle of \<open>[0, 1]\<close> with the second value gives \<open>[0, 1]\<close>.
\<close>

theorem generate_rows_fresh_counterexample:
  "generate 1 one_then_zero 2 = Inr \<lparr>randlist = [1, 0], calls = 4,
      seller_prefs = [[1, 0], [1, 0]], buyer_prefs = [[1, 0], [1, 0]]\<rparr> \<and>
   shuffle_array 1 one_then_zero 2 ([0, 1], 1) = Inr ([0, 1], 2) \<and>
   \<not> rows_fresh 1 one_then_zero 2 \<lparr>randlist = [1, 0], calls = 4,
      seller_prefs = [[1, 0], [1, 0]], buyer_prefs = [[1, 0], [1, 0]]\<rparr>"
proof -
  have e: "generate 1 one_then_zero 2 = Inr \<lparr>randlist = [1, 0], calls = 4,
      seller_prefs = [[1, 0], [1, 0]], buyer_prefs = [[1, 0], [1, 0]]\<rparr>" by code_simp
  have s: "shuffle_array 1 one_then_zero 2 ([0, 1], 1) = Inr ([0, 1], 2)" by code_simp
  have "\<not> rows_fresh 1 one_then_zero 2 \<lparr>randlist = [1, 0], calls = 4,
      seller_prefs = [[1, 0], [1, 0]], buyer_prefs = [[1, 0], [1, 0]]\<rparr>" by code_simp
  with e s show ?thesis by blast
qed

text \<open>
  Claim C6 as amended. For every \<open>n \<ge> 0\<close> and every randomness source within the
  contract of \<^verbatim>\<open>rand()\<close>, each of the \<open>2 n\<close> rows is the shuffle of the buffer as the
  shuffle for the row before it left it (seller 0, buyer 0, seller 1, buyer 1, \<dots>);
  only the first shuffle starts from the identity sequence \<open>[0, \<dots>, n - 1]\<close>.
\<close>

theorem generate_rows_chained:
  assumes "0 \<le> n" "rand_contract rand_max rnd"
  shows "\<exists>g. generate rand_max rnd n = Inr g \<and> rows_chained rand_max rnd n g"
proof -
  from generate_chain[OF assms(2,1)] obtain g where g: "generate rand_max rnd n = Inr g"
    "\<And>i. 0 \<le> i \<Longrightarrow> i < n \<Longrightarrow>
       shuffle_array rand_max rnd n
         (if i = 0 then [0..n - 1] else buyer_prefs g ! nat (i - 1), nat (2 * i * (n - 1))) =
         Inr (seller_prefs g ! nat i, nat ((2 * i + 1) * (n - 1))) \<and>
       shuffle_array rand_max rnd n (seller_prefs g ! nat i, nat ((2 * i + 1) * (n - 1))) =
         Inr (buyer_prefs g ! nat i, nat ((2 * i + 2) * (n - 1)))"
    by blast
  have "rows_chained rand_max rnd n g"
    unfolding rows_chained_def
  proof
    fix i assume "i \<in> {0..<n}"
    then have "0 \<le> i" "i < n" by simp_all
    then show "shuffle_array rand_max rnd n
         (if i = 0 then [0..n - 1] else buyer_prefs g ! nat (i - 1), nat (2 * i * (n - 1))) =
         Inr (seller_prefs g ! nat i, nat ((2 * i + 1) * (n - 1))) \<and>
       shuffle_array rand_max rnd n (seller_prefs g ! nat i, nat ((2 * i + 1) * (n - 1))) =
         Inr (buyer_prefs g ! nat i, nat ((2 * i + 2) * (n - 1)))" by (rule g(2))
  qed
  with g(1) show ?thesis by blast
qed

theorem generate_rows_chained_witness:
  "(0::int) \<le> 2 \<and> rand_contract 1 one_then_zero \<and>
   (\<exists>g. generate 1 one_then_zero 2 = Inr g \<and> buyer_prefs g = [[1, 0], [1, 0]] \<and>
      rows_chained 1 one_then_zero 2 g)"
proof -
  have h0: "(0::int) \<le> 2" by simp
  have h1: "rand_contract 1 one_then_zero" by (simp add: rand_contract_def one_then_zero_def)
  have e: "generate 1 one_then_zero 2 = Inr \<lparr>randlist = [1, 0], calls = 4,
      seller_prefs = [[1, 0], [1, 0]], buyer_prefs = [[1, 0], [1, 0]]\<rparr>" by code_simp
  from generate_rows_chained[OF h0 h1] obtain g where
    g: "generate 1 one_then_zero 2 = Inr g" "rows_chained 1 one_then_zero 2 g" by blast
  from g(1) e have "g = \<lparr>randlist = [1, 0], calls = 4,
      seller_prefs = [[1, 0], [1, 0]], buyer_prefs = [[1, 0], [1, 0]]\<rparr>" by simp
  then have "buyer_prefs g = [[1, 0], [1, 0]]" by simp
  with g h0 h1 show ?thesis by blast
qed

lemma generate_zero:
  "generate rand_max rnd 0 = Inr \<lparr>randlist = [], calls = 0, seller_prefs = [], buyer_prefs = []\<rparr>"
  by (simp add: generate_def init_randlist_def)

lemma engine_zero: "engine 0 sp bp = Some (Inr (start 0))"
proof -
  have "proposal_loop 0 sp bp (start 0) = Some (Inr (start 0))"
    by (subst proposal_loop.simps) (simp add: start_def)
  then show ?thesis by (simp add: engine_def init_state_start)
qed

lemma main_zero:
  "main rand_max rnd [prog, ''0''] =
     Some (Inr \<lparr>printed_seller_prefs = [], printed_buyer_prefs = [], printed_matches = []\<rparr>)"
proof -
  have "atoi ''0'' = 0" by code_simp
  then show ?thesis by (simp add: main_def generate_zero engine_zero start_def)
qed

lemma main_no_usage_error:
  assumes rc: "rand_contract rand_max rnd" and l: "length argv \<noteq> 1"
  shows "main rand_max rnd argv \<noteq> Some (Inl UsageError)"
proof -
  define n where "n = (if int (length argv) = 2 then atoi (argv ! 1) else 0)"
  show ?thesis
  proof (cases "n < 0")
    case True
    with l show ?thesis by (simp add: main_def n_def Let_def)
  next
    case False
    then have n: "0 \<le> n" by simp
    from generate_valid[OF n rc] obtain g where g: "generate rand_max rnd n = Inr g"
      "valid_prefs n (seller_prefs g)" "valid_prefs n (buyer_prefs g)" by blast
    from engine_total[OF g(2,3) n] obtain fin where
      fin: "engine n (seller_prefs g) (buyer_prefs g) = Some (Inr fin)" by blast
    have "main rand_max rnd argv = Some (Inr \<lparr>printed_seller_prefs = seller_prefs g,
        printed_buyer_prefs = buyer_prefs g, printed_matches = seller_matches fin\<rparr>)"
      using l False g(1) fin unfolding main_def Let_def n_def[symmetric] by simp
    then show ?thesis by simp
  qed
qed

text \<open>
  Claim C5 (usage errors) does not hold for an argument that is not a number: the
  argument is passed to \<^verbatim>\<open>atoi\<close> and never checked, so \<^verbatim>\<open>abc\<close> gives \<open>n = 0\<close> and the
  program runs to the end with empty tables.
\<close>

theorem main_bad_argument_counterexample:
  "atoi ''abc'' = 0 \<and>
   main 1 one_then_zero [''sm'', ''abc''] =
     Some (Inr \<lparr>printed_seller_prefs = [], printed_buyer_prefs = [], printed_matches = []\<rparr>) \<and>
   main 1 one_then_zero [''sm'', ''abc''] \<noteq> Some (Inl UsageError)"
proof -
  have a: "atoi ''abc'' = 0" by code_simp
  have "main 1 one_then_zero [''sm'', ''abc''] =
     Some (Inr \<lparr>printed_seller_prefs = [], printed_buyer_prefs = [], printed_matches = []\<rparr>)"
    by (simp add: main_def a generate_zero engine_zero start_def)
  with a show ?thesis by simp
qed

text \<open>
  Claim C5 as amended. An invocation with no size argument (\<^verbatim>\<open>argc == 1\<close>) is a
  \<open>UsageError\<close>, whatever the randomness source: the generator and the engine do not
  run. With any other number of arguments no usage error is reported, whatever the
  arguments are.
\<close>

theorem main_usage_error:
  assumes "rand_contract rand_max rnd"
  shows "main rand_max' rnd' [prog] = Some (Inl UsageError) \<and>
    (length argv \<noteq> 1 \<longrightarrow> main rand_max rnd argv \<noteq> Some (Inl UsageError))"
  using main_no_usage_error[OF assms] by (simp add: main_def)

theorem main_usage_error_witness:
  "rand_contract 1 one_then_zero \<and>
   main 1 one_then_zero [''sm''] = Some (Inl UsageError) \<and>
   length [''sm'', ''-3''] \<noteq> 1 \<and>
   main 1 one_then_zero [''sm'', ''-3''] = Some (Inl UndefinedBehaviour) \<and>
   main 1 one_then_zero [''sm'', ''-3''] \<noteq> Some (Inl UsageError)"
proof -
  have h: "rand_contract 1 one_then_zero" by (simp add: rand_contract_def one_then_zero_def)
  have a: "atoi ''-3'' = - 3" by code_simp
  have m: "main 1 one_then_zero [''sm'', ''-3''] = Some (Inl UndefinedBehaviour)"
    by (simp add: main_def a)
  from main_usage_error[OF h, of 1 one_then_zero "''sm''" "[''sm'', ''-3'']"] h m
  show ?thesis by simp
qed

text \<open>
  Claim C10 (more than one argument). With \<^verbatim>\<open>argc > 2\<close> no usage error is reported:
  \<open>n\<close> stays 0, the loop guard is false on entry, so the engine returns its initial
  state, and the program prints empty tables and an empty matching, as it does for
  the single argument \<^verbatim>\<open>0\<close>.
\<close>

theorem main_extra_arguments:
  assumes "2 < length argv"
  shows "main rand_max rnd argv =
      Some (Inr \<lparr>printed_seller_prefs = [], printed_buyer_prefs = [], printed_matches = []\<rparr>) \<and>
    main rand_max rnd argv = main rand_max rnd [prog, ''0''] \<and>
    main rand_max rnd argv \<noteq> Some (Inl UsageError) \<and>
    engine 0 [] [] = Some (Inr (start 0)) \<and> \<not> 0 < bachelor_count (start 0) \<and>
    proposal_loop 0 [] [] (start 0) = Some (Inr (start 0))"
proof -
  have "main rand_max rnd argv =
      Some (Inr \<lparr>printed_seller_prefs = [], printed_buyer_prefs = [], printed_matches = []\<rparr>)"
    using assms by (simp add: main_def generate_zero engine_zero start_def)
  moreover have "proposal_loop 0 [] [] (start 0) = Some (Inr (start 0))"
    by (subst proposal_loop.simps) (simp add: start_def)
  ultimately show ?thesis by (simp add: main_zero engine_zero start_def)
qed

theorem main_extra_arguments_witness:
  "2 < length [''sm'', ''5'', ''7''] \<and>
   main 1 one_then_zero [''sm'', ''5'', ''7''] =
      Some (Inr \<lparr>printed_seller_prefs = [], printed_buyer_prefs = [], printed_matches = []\<rparr>) \<and>
   main 1 one_then_zero [''sm'', ''5'', ''7''] = main 1 one_then_zero [''sm'', ''0'']"
proof -
  have h: "2 < length [''sm'', ''5'', ''7'']" by simp
  from main_extra_arguments[OF h, of 1 one_then_zero "''sm''"] h show ?thesis by blast
qed

end
